theory Spec2Isabelle
  imports Main
begin

section \<open>Contact manager: fields, records, address book\<close>

text \<open>
  The development follows \<^verbatim>\<open>bot.py\<close>. A Python \<^verbatim>\<open>str\<close> is a list of code points,
  and a text of the program is written \<open>asc ''...''\<close>. The regular-expression class
  \<^verbatim>\<open>\d\<close> and \<^verbatim>\<open>int()\<close> read the decimal digits of every script: which code points
  those are, and their values, is a table of the interpreter and not of the program, and
  is the parameter \<open>D\<close> of every function that reads digits. \<open>unicode_like\<close> says what
  the theorems need of it. The functions of the \<^verbatim>\<open>datetime\<close> library that the program
  calls are modelled as they behave under CPython 3.11 with the GNU C library.
  Every \<^verbatim>\<open>raise\<close> of the program is a value of \<open>error\<close>; all of them but the last
  are \<^verbatim>\<open>ValueError\<close> in the program, told apart by their message.
\<close>

datatype error =
    PhoneInvalid      \<comment> \<open>\<^verbatim>\<open>ValueError("Phone number must contain exactly 10 digits")\<close>\<close>
  | PhoneNotFound     \<comment> \<open>\<^verbatim>\<open>ValueError("Phone not found")\<close>\<close>
  | InvalidDateFormat \<comment> \<open>\<^verbatim>\<open>ValueError("Invalid date format. Use DD.MM.YYYY. Error: ...")\<close>\<close>
  | DateValueError    \<comment> \<open>\<^verbatim>\<open>ValueError\<close> of the date library: a field out of range, a text not parsed\<close>
  | OverflowError     \<comment> \<open>\<^verbatim>\<open>OverflowError("date value out of range")\<close>\<close>

subsection \<open>Characters and digits\<close>

type_synonym codepoint = nat

type_synonym pystr = "codepoint list"

type_synonym digit_table = "codepoint \<Rightarrow> int option"

definition asc :: "string \<Rightarrow> pystr" where
  "asc s = map of_char s"

definition is_digit :: "digit_table \<Rightarrow> codepoint \<Rightarrow> bool" where
  "is_digit D c = (D c \<noteq> None)"

definition digit_val :: "digit_table \<Rightarrow> codepoint \<Rightarrow> int" where
  "digit_val D c = (case D c of Some v \<Rightarrow> v | None \<Rightarrow> 0)"

text \<open>A range of the pattern, as \<^verbatim>\<open>[1-9]\<close>: between two characters of ASCII.\<close>

definition in_range :: "char \<Rightarrow> char \<Rightarrow> codepoint \<Rightarrow> bool" where
  "in_range lo hi c = (of_char lo \<le> c \<and> c \<le> of_char hi)"

definition digit_char :: "int \<Rightarrow> codepoint" where
  "digit_char n = 48 + nat n"

text \<open>
  What the theorems on dates need of the table: the digits of ASCII have their values,
  and neither the dot nor the blank is a digit.
\<close>

definition unicode_like :: "digit_table \<Rightarrow> bool" where
  "unicode_like D =
     ((\<forall>c. 48 \<le> c \<and> c \<le> 57 \<longrightarrow> D c = Some (int c - 48)) \<and> D 46 = None \<and> D 32 = None)"

text \<open>
  A part of the table, for the examples: the digits of ASCII and the Arabic-Indic digits
  (U+0660 to U+0669), with their values. The texts of the examples hold no other
  character that the full table makes a digit.
\<close>

definition some_digits :: digit_table where
  "some_digits c =
     (if 48 \<le> c \<and> c \<le> 57 then Some (int c - 48)
      else if 1632 \<le> c \<and> c \<le> 1641 then Some (int c - 1632)
      else None)"

subsection \<open>Phone\<close>

text \<open>\<^verbatim>\<open>re.sub(r"\D", "", value)\<close>: every character that is not a digit is dropped.\<close>

definition strip_non_digits :: "digit_table \<Rightarrow> pystr \<Rightarrow> pystr" where
  "strip_non_digits D s = filter (is_digit D) s"

text \<open>\<^verbatim>\<open>re.fullmatch(r"\d{10}", value) is not None\<close>\<close>

definition is_valid_phone :: "digit_table \<Rightarrow> pystr \<Rightarrow> bool" where
  "is_valid_phone D v = (length v = 10 \<and> list_all (is_digit D) v)"

text \<open>\<^verbatim>\<open>Phone(value)\<close>: the result is the stored \<^verbatim>\<open>value\<close>.\<close>

definition Phone :: "digit_table \<Rightarrow> pystr \<Rightarrow> error + pystr" where
  "Phone D v =
     (let cleaned = strip_non_digits D v
      in if \<not> is_valid_phone D cleaned then Inl PhoneInvalid else Inr cleaned)"

subsection \<open>Calendar dates (\<^verbatim>\<open>datetime.date\<close>)\<close>

text \<open>
  The library's \<^verbatim>\<open>date\<close>: a proleptic Gregorian date with \<^verbatim>\<open>1 <= year <= 9999\<close>,
  its ordinal (\<^verbatim>\<open>_ymd2ord\<close>), \<^verbatim>\<open>weekday()\<close> with Monday as 0, comparison, difference
  in days, \<^verbatim>\<open>replace\<close>, and the addition of a number of days.
\<close>

record date =
  year :: int
  month :: int
  day :: int

definition MINYEAR :: int where "MINYEAR = 1"
definition MAXYEAR :: int where "MAXYEAR = 9999"

definition is_leap :: "int \<Rightarrow> bool" where
  "is_leap y = (y mod 4 = 0 \<and> (y mod 100 \<noteq> 0 \<or> y mod 400 = 0))"

definition DAYS_IN_MONTH :: "int list" where
  "DAYS_IN_MONTH = [-1, 31, 28, 31, 30, 31, 30, 31, 31, 30, 31, 30, 31]"

definition DAYS_BEFORE_MONTH :: "int list" where
  "DAYS_BEFORE_MONTH = [-1, 0, 31, 59, 90, 120, 151, 181, 212, 243, 273, 304, 334]"

definition days_in_month :: "int \<Rightarrow> int \<Rightarrow> int" where
  "days_in_month y m = (if m = 2 \<and> is_leap y then 29 else DAYS_IN_MONTH ! nat m)"

definition days_before_year :: "int \<Rightarrow> int" where
  "days_before_year y = (let y1 = y - 1 in y1 * 365 + y1 div 4 - y1 div 100 + y1 div 400)"

definition days_before_month :: "int \<Rightarrow> int \<Rightarrow> int" where
  "days_before_month y m = DAYS_BEFORE_MONTH ! nat m + (if m > 2 \<and> is_leap y then 1 else 0)"

definition ymd2ord :: "int \<Rightarrow> int \<Rightarrow> int \<Rightarrow> int" where
  "ymd2ord y m d = days_before_year y + days_before_month y m + d"

text \<open>\<^verbatim>\<open>_check_date_fields\<close>: what the constructor accepts.\<close>

definition check_date_fields :: "int \<Rightarrow> int \<Rightarrow> int \<Rightarrow> bool" where
  "check_date_fields y m d =
     (MINYEAR \<le> y \<and> y \<le> MAXYEAR \<and> 1 \<le> m \<and> m \<le> 12 \<and> 1 \<le> d \<and> d \<le> days_in_month y m)"

definition date_new :: "int \<Rightarrow> int \<Rightarrow> int \<Rightarrow> error + date" where
  "date_new y m d =
     (if check_date_fields y m d then Inr \<lparr>year = y, month = m, day = d\<rparr>
      else Inl DateValueError)"

definition valid_date :: "date \<Rightarrow> bool" where
  "valid_date dt = check_date_fields (year dt) (month dt) (day dt)"

definition toordinal :: "date \<Rightarrow> int" where
  "toordinal dt = ymd2ord (year dt) (month dt) (day dt)"

definition weekday :: "date \<Rightarrow> int" where
  "weekday dt = (toordinal dt + 6) mod 7"

text \<open>\<^verbatim>\<open>a < b\<close> compares the triples (year, month, day).\<close>

definition date_lt :: "date \<Rightarrow> date \<Rightarrow> bool" where
  "date_lt a b =
     (year a < year b \<or> (year a = year b \<and>
        (month a < month b \<or> (month a = month b \<and> day a < day b))))"

text \<open>\<^verbatim>\<open>(a - b).days\<close>\<close>

definition days_between :: "date \<Rightarrow> date \<Rightarrow> int" where
  "days_between a b = toordinal a - toordinal b"

text \<open>
  \<^verbatim>\<open>d + timedelta(days=n)\<close> is the date whose ordinal is \<open>n\<close> more, and an
  \<^verbatim>\<open>OverflowError\<close> beyond the last day of year 9999. The model steps through the
  calendar one day at a time; \<open>add_days_toordinal\<close> below relates it to the ordinal.
\<close>

definition next_day :: "date \<Rightarrow> error + date" where
  "next_day dt =
     (if day dt < days_in_month (year dt) (month dt) then Inr (dt\<lparr>day := day dt + 1\<rparr>)
      else if month dt < 12 then Inr (dt\<lparr>month := month dt + 1, day := 1\<rparr>)
      else if year dt < MAXYEAR then Inr \<lparr>year = year dt + 1, month = 1, day = 1\<rparr>
      else Inl OverflowError)"

fun add_days :: "date \<Rightarrow> nat \<Rightarrow> error + date" where
  "add_days dt 0 = Inr dt"
| "add_days dt (Suc n) = (case next_day dt of Inl e \<Rightarrow> Inl e | Inr dt' \<Rightarrow> add_days dt' n)"

text \<open>
  \<^verbatim>\<open>strftime("%d.%m.%Y")\<close>: day and month on two digits; the year as the C library
  prints a number, without padding, so that a year below 1000 has fewer than four
  digits.
\<close>

definition pad2 :: "int \<Rightarrow> pystr" where
  "pad2 n = [digit_char (n div 10), digit_char (n mod 10)]"

fun decimal_digits :: "nat \<Rightarrow> pystr" where
  "decimal_digits n =
     (if n < 10 then [48 + n] else decimal_digits (n div 10) @ [48 + n mod 10])"

definition strftime_dmY :: "date \<Rightarrow> pystr" where
  "strftime_dmY dt =
     pad2 (day dt) @ asc ''.'' @ pad2 (month dt) @ asc ''.'' @ decimal_digits (nat (year dt))"

subsection \<open>Parsing a date (\<^verbatim>\<open>datetime.strptime(value, "%d.%m.%Y")\<close>)\<close>

text \<open>
  The library turns the format into the regular expression
  \<^verbatim>\<open>(?P<d>3[0-1]|[1-2]\d|0[1-9]|[1-9]| [1-9])\.(?P<m>1[0-2]|0[1-9]|[1-9])\.(?P<Y>\d\d\d\d)\<close>,
  matches it at the start of the text, and refuses a match that leaves text over. The
  matcher is a backtracking one: \<open>re_rests\<close> lists what each way of matching leaves, in
  the order the alternatives are tried, and the match found is the first. The ranges are
  of ASCII; \<^verbatim>\<open>\d\<close> is any decimal digit.
\<close>

datatype re = Chr char | Rng char char | Dig | Cat re re | Alt re re

fun re_rests :: "digit_table \<Rightarrow> re \<Rightarrow> pystr \<Rightarrow> pystr list" where
  "re_rests D (Chr c) s = (case s of [] \<Rightarrow> [] | x # xs \<Rightarrow> if x = of_char c then [xs] else [])"
| "re_rests D (Rng lo hi) s =
     (case s of [] \<Rightarrow> [] | x # xs \<Rightarrow> if in_range lo hi x then [xs] else [])"
| "re_rests D Dig s = (case s of [] \<Rightarrow> [] | x # xs \<Rightarrow> if is_digit D x then [xs] else [])"
| "re_rests D (Cat p q) s = concat (map (re_rests D q) (re_rests D p s))"
| "re_rests D (Alt p q) s = re_rests D p s @ re_rests D q s"

definition re_d :: re where
  "re_d = Alt (Cat (Chr CHR ''3'') (Rng CHR ''0'' CHR ''1''))
         (Alt (Cat (Rng CHR ''1'' CHR ''2'') Dig)
         (Alt (Cat (Chr CHR ''0'') (Rng CHR ''1'' CHR ''9''))
         (Alt (Rng CHR ''1'' CHR ''9'')
              (Cat (Chr CHR '' '') (Rng CHR ''1'' CHR ''9'')))))"

definition re_m :: re where
  "re_m = Alt (Cat (Chr CHR ''1'') (Rng CHR ''0'' CHR ''2''))
         (Alt (Cat (Chr CHR ''0'') (Rng CHR ''1'' CHR ''9''))
              (Rng CHR ''1'' CHR ''9''))"

definition re_Y :: re where
  "re_Y = Cat Dig (Cat Dig (Cat Dig Dig))"

text \<open>The text a group matched: what was consumed between two rests.\<close>

definition consumed :: "pystr \<Rightarrow> pystr \<Rightarrow> pystr" where
  "consumed s r = take (length s - length r) s"

text \<open>All matches as (day text, month text, year text, text left over), first match first.\<close>

definition strptime_matches ::
  "digit_table \<Rightarrow> pystr \<Rightarrow> (pystr \<times> pystr \<times> pystr \<times> pystr) list" where
  "strptime_matches D s =
     concat (map (\<lambda>r1.
       concat (map (\<lambda>r2.
         concat (map (\<lambda>r3.
           concat (map (\<lambda>r4.
             map (\<lambda>r5. (consumed s r1, consumed r2 r3, consumed r4 r5, r5))
               (re_rests D re_Y r4))
             (re_rests D (Chr CHR ''.'') r3)))
           (re_rests D re_m r2)))
         (re_rests D (Chr CHR ''.'') r1)))
       (re_rests D re_d s))"

text \<open>
  \<^verbatim>\<open>int(text)\<close> on a matched group, a text of digits with blanks around: the blanks
  are dropped and the digits read in base ten. A text with anything else in it is not
  read (the groups never hold one).
\<close>

definition decimal :: "digit_table \<Rightarrow> pystr \<Rightarrow> int" where
  "decimal D t = foldl (\<lambda>a c. 10 * a + digit_val D c) 0 t"

definition strip_blanks :: "pystr \<Rightarrow> pystr" where
  "strip_blanks t = rev (dropWhile (\<lambda>c. c = 32) (rev (dropWhile (\<lambda>c. c = 32) t)))"

definition py_int :: "digit_table \<Rightarrow> pystr \<Rightarrow> int option" where
  "py_int D t =
     (let u = strip_blanks t
      in if u \<noteq> [] \<and> list_all (is_digit D) u then Some (decimal D u) else None)"

definition strptime_dmY :: "digit_table \<Rightarrow> pystr \<Rightarrow> error + date" where
  "strptime_dmY D s =
     (case strptime_matches D s of
        [] \<Rightarrow> Inl DateValueError
      | (d, m, y, rest) # _ \<Rightarrow>
          if rest \<noteq> [] then Inl DateValueError
          else (case (py_int D y, py_int D m, py_int D d) of
                  (Some yv, Some mv, Some dv) \<Rightarrow> date_new yv mv dv
                | _ \<Rightarrow> Inl DateValueError))"

subsection \<open>Birthday\<close>

text \<open>
  The stored \<^verbatim>\<open>datetime\<close> has the time 00:00:00 and only its date is ever read, so the
  value of a \<^verbatim>\<open>Birthday\<close> is its \<^typ>\<open>date\<close>.
\<close>

definition Birthday :: "digit_table \<Rightarrow> pystr \<Rightarrow> error + date" where
  "Birthday D v = (case strptime_dmY D v of Inl e \<Rightarrow> Inl InvalidDateFormat | Inr dt \<Rightarrow> Inr dt)"


subsection \<open>Record\<close>

text \<open>
  A method that mutates its object returns the outcome together with the object after
  the call, also when it raises.
\<close>

record contact =
  name :: pystr
  phones :: "pystr list"
  birthday :: "date option"

fun first_index :: "('a \<Rightarrow> bool) \<Rightarrow> 'a list \<Rightarrow> nat option" where
  "first_index P [] = None"
| "first_index P (x # xs) = (if P x then Some 0 else map_option Suc (first_index P xs))"

text \<open>\<^verbatim>\<open>find_phone\<close> returns the first phone object with the cleaned value: its position.\<close>

definition find_phone :: "digit_table \<Rightarrow> contact \<Rightarrow> pystr \<Rightarrow> nat option" where
  "find_phone D r phone =
     (let cleaned = strip_non_digits D phone in first_index (\<lambda>v. v = cleaned) (phones r))"

definition add_phone :: "digit_table \<Rightarrow> contact \<Rightarrow> pystr \<Rightarrow> (error + unit) \<times> contact" where
  "add_phone D r phone =
     (case Phone D phone of
        Inl e \<Rightarrow> (Inl e, r)
      | Inr v \<Rightarrow> (Inr (), r\<lparr>phones := phones r @ [v]\<rparr>))"

definition remove_phone :: "digit_table \<Rightarrow> contact \<Rightarrow> pystr \<Rightarrow> (error + unit) \<times> contact" where
  "remove_phone D r phone =
     (case find_phone D r phone of
        None \<Rightarrow> (Inl PhoneNotFound, r)
      | Some i \<Rightarrow> (Inr (), r\<lparr>phones := take i (phones r) @ drop (Suc i) (phones r)\<rparr>))"

definition edit_phone ::
  "digit_table \<Rightarrow> contact \<Rightarrow> pystr \<Rightarrow> pystr \<Rightarrow> (error + unit) \<times> contact" where
  "edit_phone D r old_phone new_phone =
     (case find_phone D r old_phone of
        None \<Rightarrow> (Inl PhoneNotFound, r)
      | Some i \<Rightarrow>
          (case Phone D new_phone of
             Inl e \<Rightarrow> (Inl e, r)
           | Inr v \<Rightarrow> (Inr (), r\<lparr>phones := (phones r)[i := v]\<rparr>)))"

definition add_birthday :: "digit_table \<Rightarrow> contact \<Rightarrow> pystr \<Rightarrow> (error + unit) \<times> contact" where
  "add_birthday D r b =
     (case Birthday D b of
        Inl e \<Rightarrow> (Inl e, r)
      | Inr dt \<Rightarrow> (Inr (), r\<lparr>birthday := Some dt\<rparr>))"



subsection \<open>AddressBook\<close>

text \<open>
  The dictionary \<^verbatim>\<open>self.data\<close> keeps its keys in insertion order; storing under a key
  that is present replaces the value where it stands.
\<close>

type_synonym address_book = "(pystr \<times> contact) list"

fun dict_set :: "('k \<times> 'v) list \<Rightarrow> 'k \<Rightarrow> 'v \<Rightarrow> ('k \<times> 'v) list" where
  "dict_set [] k v = [(k, v)]"
| "dict_set ((k', v') # kvs) k v =
     (if k' = k then (k', v) # kvs else (k', v') # dict_set kvs k v)"

fun dict_get :: "('k \<times> 'v) list \<Rightarrow> 'k \<Rightarrow> 'v option" where
  "dict_get [] k = None"
| "dict_get ((k', v') # kvs) k = (if k' = k then Some v' else dict_get kvs k)"

definition dict_values :: "('k \<times> 'v) list \<Rightarrow> 'v list" where
  "dict_values kvs = map snd kvs"

definition add_record :: "address_book \<Rightarrow> contact \<Rightarrow> address_book" where
  "add_record book r = dict_set book (name r) r"

definition find_record :: "address_book \<Rightarrow> pystr \<Rightarrow> contact option" where
  "find_record book n = dict_get book n"

definition delete_record :: "address_book \<Rightarrow> pystr \<Rightarrow> address_book" where
  "delete_record book n =
     (if dict_get book n \<noteq> None then filter (\<lambda>kv. fst kv \<noteq> n) book else book)"

subsection \<open>Upcoming birthdays\<close>

record entry =
  entry_name :: pystr
  congratulation_date :: pystr

text \<open>\<^verbatim>\<open>try: a  except ValueError: b\<close>\<close>

definition try_except_ValueError :: "error + 'a \<Rightarrow> error + 'a \<Rightarrow> error + 'a" where
  "try_except_ValueError a b =
     (case a of Inr x \<Rightarrow> Inr x | Inl e \<Rightarrow> if e = OverflowError then Inl e else b)"

text \<open>\<^verbatim>\<open>birthday_date.replace(year=y)\<close>, and with \<^verbatim>\<open>day=28\<close> when that raises.\<close>

definition replace_year :: "date \<Rightarrow> int \<Rightarrow> error + date" where
  "replace_year bd y =
     try_except_ValueError (date_new y (month bd) (day bd)) (date_new y (month bd) 28)"

text \<open>The body of the loop for one record: nothing, or the entry to append.\<close>

definition upcoming_entry :: "date \<Rightarrow> contact \<Rightarrow> error + entry option" where
  "upcoming_entry today r =
     (case birthday r of
        None \<Rightarrow> Inr None
      | Some birthday_date \<Rightarrow>
          (case replace_year birthday_date (year today) of
             Inl e \<Rightarrow> Inl e
           | Inr this_year \<Rightarrow>
               (case (if date_lt this_year today
                      then replace_year birthday_date (year today + 1)
                      else Inr this_year) of
                  Inl e \<Rightarrow> Inl e
                | Inr birthday_this_year \<Rightarrow>
                    (let days_until_birthday = days_between birthday_this_year today
                     in if 0 \<le> days_until_birthday \<and> days_until_birthday \<le> 7
                        then (case (if weekday birthday_this_year = 5
                                    then add_days birthday_this_year 2
                                    else if weekday birthday_this_year = 6
                                    then add_days birthday_this_year 1
                                    else Inr birthday_this_year) of
                                Inl e \<Rightarrow> Inl e
                              | Inr congratulation \<Rightarrow>
                                  Inr (Some \<lparr>entry_name = name r,
                                             congratulation_date = strftime_dmY congratulation\<rparr>))
                        else Inr None))))"

text \<open>
  The loop over \<^verbatim>\<open>self.data.values()\<close>, with the book it runs in and the list built so
  far. \<^verbatim>\<open>today\<close> is what \<^verbatim>\<open>datetime.today().date()\<close> returned.
\<close>

fun upcoming_loop ::
  "date \<Rightarrow> contact list \<Rightarrow> address_book \<Rightarrow> entry list \<Rightarrow> (error + entry list) \<times> address_book" where
  "upcoming_loop today [] book upcoming = (Inr upcoming, book)"
| "upcoming_loop today (r # rs) book upcoming =
     (case upcoming_entry today r of
        Inl e \<Rightarrow> (Inl e, book)
      | Inr None \<Rightarrow> upcoming_loop today rs book upcoming
      | Inr (Some e) \<Rightarrow> upcoming_loop today rs book (upcoming @ [e]))"

definition get_upcoming_birthdays ::
  "date \<Rightarrow> address_book \<Rightarrow> (error + entry list) \<times> address_book" where
  "get_upcoming_birthdays today book = upcoming_loop today (dict_values book) book []"

subsection \<open>The specification's reading\<close>

text \<open>
  The definitions of this subsection follow the words of the specification, not the
  program; the theorems compare the two.

  The candidate in year \<open>y\<close>: the birthday's month and day in that year, day 28 in place
  of 29 February when \<open>y\<close> is not a leap year.
\<close>

definition spec_candidate_in :: "int \<Rightarrow> date \<Rightarrow> date" where
  "spec_candidate_in y bd =
     \<lparr>year = y, month = month bd,
      day = (if month bd = 2 \<and> day bd = 29 \<and> \<not> is_leap y then 28 else day bd)\<rparr>"

text \<open>
  The next occurrence: the candidate in today's year, redone for the year after when it
  is strictly before today.
\<close>

definition spec_candidate :: "date \<Rightarrow> date \<Rightarrow> date" where
  "spec_candidate today bd =
     (if toordinal (spec_candidate_in (year today) bd) < toordinal today
      then spec_candidate_in (year today + 1) bd
      else spec_candidate_in (year today) bd)"

definition spec_days_until :: "date \<Rightarrow> date \<Rightarrow> int" where
  "spec_days_until today bd = toordinal (spec_candidate today bd) - toordinal today"

definition spec_upcoming :: "date \<Rightarrow> date \<Rightarrow> bool" where
  "spec_upcoming today bd = (0 \<le> spec_days_until today bd \<and> spec_days_until today bd \<le> 7)"

text \<open>A record is included when it has a birthday and that birthday is upcoming.\<close>

definition spec_included :: "date \<Rightarrow> contact \<Rightarrow> bool" where
  "spec_included today r =
     (case birthday r of None \<Rightarrow> False | Some bd \<Rightarrow> spec_upcoming today bd)"

text \<open>The shift off the weekend: two days from a Saturday (5), one from a Sunday (6).\<close>

definition spec_shift :: "date \<Rightarrow> int" where
  "spec_shift c = (if weekday c = 5 then 2 else if weekday c = 6 then 1 else 0)"

text \<open>
  The pattern DD.MM.YYYY in the digits of ASCII: two digits, a dot, two digits, a dot,
  four digits; the numbers that DD, MM and YYYY denote; a number on four digits.
\<close>

definition ascii_digit :: "codepoint \<Rightarrow> bool" where
  "ascii_digit c = (48 \<le> c \<and> c \<le> 57)"

definition ascii_val :: "codepoint \<Rightarrow> int" where
  "ascii_val c = int c - 48"

definition dd_mm_yyyy :: "pystr \<Rightarrow> bool" where
  "dd_mm_yyyy s =
     (case s of
        [d1, d2, p, m1, m2, q, y1, y2, y3, y4] \<Rightarrow>
          p = 46 \<and> q = 46 \<and> list_all ascii_digit [d1, d2, m1, m2, y1, y2, y3, y4]
      | _ \<Rightarrow> False)"



definition pad4 :: "int \<Rightarrow> pystr" where
  "pad4 n = [digit_char (n div 1000), digit_char (n div 100 mod 10),
             digit_char (n div 10 mod 10), digit_char (n mod 10)]"

text \<open>
  The texts that \<^verbatim>\<open>Birthday\<close> reads as the day \<open>n\<close>, as the month \<open>n\<close> and as the year
  \<open>n\<close>. A day: 30 or 31; 1 or 2 and any decimal digit; 0 and a digit 1 to 9; a single
  digit 1 to 9, also after a blank. A month: 10 to 12; 0 and a digit 1 to 9; a single
  digit 1 to 9. A year: four decimal digits. Where no script is named the digits are
  those of ASCII.
\<close>

definition day_reads :: "digit_table \<Rightarrow> pystr \<Rightarrow> int \<Rightarrow> bool" where
  "day_reads D t n =
     (case t of
        [a] \<Rightarrow> in_range CHR ''1'' CHR ''9'' a \<and> n = ascii_val a
      | [a, b] \<Rightarrow>
          (a = 51 \<and> in_range CHR ''0'' CHR ''1'' b \<and> n = 30 + ascii_val b) \<or>
          (in_range CHR ''1'' CHR ''2'' a \<and> is_digit D b \<and> n = 10 * ascii_val a + digit_val D b) \<or>
          ((a = 48 \<or> a = 32) \<and> in_range CHR ''1'' CHR ''9'' b \<and> n = ascii_val b)
      | _ \<Rightarrow> False)"

definition month_reads :: "pystr \<Rightarrow> int \<Rightarrow> bool" where
  "month_reads t n =
     (case t of
        [a] \<Rightarrow> in_range CHR ''1'' CHR ''9'' a \<and> n = ascii_val a
      | [a, b] \<Rightarrow>
          (a = 49 \<and> in_range CHR ''0'' CHR ''2'' b \<and> n = 10 + ascii_val b) \<or>
          (a = 48 \<and> in_range CHR ''1'' CHR ''9'' b \<and> n = ascii_val b)
      | _ \<Rightarrow> False)"

definition year_reads :: "digit_table \<Rightarrow> pystr \<Rightarrow> int \<Rightarrow> bool" where
  "year_reads D t n = (length t = 4 \<and> list_all (is_digit D) t \<and> n = decimal D t)"

section \<open>Properties\<close>

subsection \<open>Lookup of phones and the dictionary\<close>

lemma first_index_None: "first_index P xs = None \<longleftrightarrow> (\<forall>x \<in> set xs. \<not> P x)"
  by (induction xs) auto

lemma first_index_Some: "x \<in> set xs \<Longrightarrow> P x \<Longrightarrow> \<exists>i. first_index P xs = Some i"
  by (induction xs) auto

lemma dict_get_dict_set: "dict_get (dict_set kvs k v) k = Some v"
  by (induction kvs) auto

lemma upcoming_loop_book: "snd (upcoming_loop today rs book acc) = book"
  by (induction rs arbitrary: acc) (auto split: sum.splits option.splits)

subsection \<open>The calendar\<close>

lemma div_step:
  assumes "0 < k"
  shows "(y::int) div k - (y - 1) div k = (if y mod k = 0 then 1 else 0)"
proof (cases "y mod k = 0")
  case True
  have "y = k * (y div k)"
    using True by (metis add.right_neutral mult_div_mod_eq)
  then have "y - 1 = k * (y div k - 1) + (k - 1)"
    by (simp add: algebra_simps)
  then have "(y - 1) div k = y div k - 1"
    using assms by (intro int_div_pos_eq [of "y - 1" k "y div k - 1" "k - 1"]) auto
  with True show ?thesis by simp
next
  case False
  have r: "0 < y mod k" "y mod k < k"
    using assms False pos_mod_sign [of k y] pos_mod_bound [of k y] by linarith+
  have "y - 1 = k * (y div k) + (y mod k - 1)"
    by (simp add: algebra_simps)
  then have "(y - 1) div k = y div k"
    using assms r by (intro int_div_pos_eq [of "y - 1" k "y div k" "y mod k - 1"]) auto
  with False show ?thesis by simp
qed

lemma mod_100_4: "(y::int) mod 100 = 0 \<Longrightarrow> y mod 4 = 0"
  using mod_mod_cancel [of 4 100 y] by simp

lemma mod_400_100: "(y::int) mod 400 = 0 \<Longrightarrow> y mod 100 = 0"
  using mod_mod_cancel [of 100 400 y] by simp

lemma days_before_year_step:
  "days_before_year (y + 1) = days_before_year y + 365 + (if is_leap y then 1 else 0)"
proof -
  define p4 q4 p100 q100 p400 q400 where
    "p4 = y div 4" and "q4 = (y - 1) div 4" and "p100 = y div 100" and
    "q100 = (y - 1) div 100" and "p400 = y div 400" and "q400 = (y - 1) div 400"
  note d = this
  have a: "p4 - q4 = (if y mod 4 = 0 then 1 else 0)" unfolding d by (rule div_step) simp
  have b: "p100 - q100 = (if y mod 100 = 0 then 1 else 0)" unfolding d by (rule div_step) simp
  have c: "p400 - q400 = (if y mod 400 = 0 then 1 else 0)" unfolding d by (rule div_step) simp
  have l: "(if is_leap y then 1 else 0) = (p4 - q4) - (p100 - q100) + (p400 - q400)"
    unfolding a b c is_leap_def using mod_100_4 [of y] mod_400_100 [of y]
    by (cases "y mod 4 = 0"; cases "y mod 100 = 0"; cases "y mod 400 = 0") simp_all
  have e1: "days_before_year (y + 1) = y * 365 + p4 - p100 + p400"
    unfolding d days_before_year_def Let_def by simp
  have e2: "days_before_year y = (y - 1) * 365 + q4 - q100 + q400"
    unfolding d days_before_year_def Let_def by simp
  show ?thesis unfolding e1 e2 l by (simp add: algebra_simps)
qed
lemma month_cases:
  "1 \<le> m \<Longrightarrow> m \<le> 12 \<Longrightarrow>
   m = 1 \<or> m = 2 \<or> m = 3 \<or> m = 4 \<or> m = 5 \<or> m = 6 \<or> m = 7 \<or> m = 8 \<or> m = 9 \<or> m = 10 \<or> m = 11 \<or> m = (12::int)"
  by arith

lemma days_in_month_bounds:
  assumes "1 \<le> m" "m \<le> 12"
  shows "28 \<le> days_in_month y m \<and> days_in_month y m \<le> 31"
  using month_cases [OF assms]
  by (auto simp: days_in_month_def DAYS_IN_MONTH_def)

lemma days_in_month_feb: "days_in_month y 2 = (if is_leap y then 29 else 28)"
  by (simp add: days_in_month_def DAYS_IN_MONTH_def)

lemma days_before_month_step:
  assumes "1 \<le> m" "m < 12"
  shows "days_before_month y (m + 1) = days_before_month y m + days_in_month y m"
proof -
  from assms have "m = 1 \<or> m = 2 \<or> m = 3 \<or> m = 4 \<or> m = 5 \<or> m = 6 \<or> m = 7 \<or> m = 8 \<or> m = 9 \<or> m = 10 \<or> m = 11" by arith
  then show ?thesis
    by (auto simp: days_before_month_def days_in_month_def DAYS_BEFORE_MONTH_def DAYS_IN_MONTH_def)
qed

lemma days_before_month_1: "days_before_month y 1 = 0"
  by (simp add: days_before_month_def DAYS_BEFORE_MONTH_def)

lemma days_before_month_12:
  "days_before_month y 12 + days_in_month y 12 = 365 + (if is_leap y then 1 else 0)"
  by (simp add: days_before_month_def days_in_month_def DAYS_BEFORE_MONTH_def DAYS_IN_MONTH_def)

text \<open>Months later in the year start later.\<close>

lemma days_before_month_mono:
  assumes "1 \<le> m" "m < m'" "m' \<le> 12"
  shows "days_before_month y m + days_in_month y m \<le> days_before_month y m'"
proof -
  have "nat m' - nat m - 1 = k \<Longrightarrow> ?thesis" for k
    using assms
  proof (induction k arbitrary: m')
    case 0
    then have "m' = m + 1" by arith
    then show ?case using days_before_month_step [of m y] 0 by simp
  next
    case (Suc k)
    then have "nat (m' - 1) - nat m - 1 = k" "m < m' - 1" "m' - 1 \<le> 12" "1 \<le> m' - 1" by arith+
    with Suc have "days_before_month y m + days_in_month y m \<le> days_before_month y (m' - 1)" by blast
    moreover have "days_before_month y (m' - 1 + 1) = days_before_month y (m' - 1) + days_in_month y (m' - 1)"
      using \<open>1 \<le> m' - 1\<close> Suc.prems by (intro days_before_month_step) arith+
    moreover have "0 \<le> days_in_month y (m' - 1)"
      using days_in_month_bounds [of "m' - 1" y] \<open>1 \<le> m' - 1\<close> \<open>m' - 1 \<le> 12\<close> by simp
    ultimately show ?case by simp
  qed
  then show ?thesis by blast
qed

lemma day_of_year_upper:
  assumes "1 \<le> m" "m \<le> 12" "d \<le> days_in_month y m"
  shows "days_before_month y m + d \<le> 365 + (if is_leap y then 1 else 0)"
proof (cases "m = 12")
  case True
  then show ?thesis using days_before_month_12 [of y] assms by simp
next
  case False
  then have "days_before_month y m + days_in_month y m \<le> days_before_month y 12"
    using assms by (intro days_before_month_mono) auto
  moreover have "0 \<le> days_in_month y 12" by (simp add: days_in_month_def DAYS_IN_MONTH_def)
  ultimately show ?thesis using days_before_month_12 [of y] assms by simp
qed

lemma days_before_month_nonneg:
  assumes "1 \<le> m" "m \<le> 12"
  shows "0 \<le> days_before_month y m"
  using month_cases [OF assms] by (auto simp: days_before_month_def DAYS_BEFORE_MONTH_def)

lemma days_before_year_le_step: "days_before_year y \<le> days_before_year (y + 1)"
  using days_before_year_step [of y] by (cases "is_leap y") simp_all

lemma days_before_year_mono_aux:
  "days_before_year y \<le> days_before_year (y + int k)"
proof (induction k)
  case 0
  then show ?case by simp
next
  case (Suc k)
  have "days_before_year (y + int k) \<le> days_before_year ((y + int k) + 1)"
    by (rule days_before_year_le_step)
  also have "(y + int k) + 1 = y + int (Suc k)" by simp
  finally show ?case using Suc by (rule order_trans [rotated])
qed

lemma days_before_year_mono:
  assumes "y \<le> y'"
  shows "days_before_year y \<le> days_before_year y'"
  using days_before_year_mono_aux [of y "nat (y' - y)"] assms by simp

text \<open>The ordinal of a valid date lies within its year.\<close>

lemma toordinal_in_year:
  assumes "valid_date a"
  shows "days_before_year (year a) < toordinal a"
    and "toordinal a \<le> days_before_year (year a + 1)"
proof -
  from assms have m: "1 \<le> month a" "month a \<le> 12" and d: "1 \<le> day a" "day a \<le> days_in_month (year a) (month a)"
    by (simp_all add: valid_date_def check_date_fields_def)
  show "days_before_year (year a) < toordinal a"
    using days_before_month_nonneg [OF m, of "year a"] d
    by (simp add: toordinal_def ymd2ord_def)
  show "toordinal a \<le> days_before_year (year a + 1)"
    using day_of_year_upper [OF m d(2)] days_before_year_step [of "year a"]
    by (simp add: toordinal_def ymd2ord_def)
qed

lemma toordinal_strict_mono:
  assumes "valid_date a" "valid_date b" "date_lt a b"
  shows "toordinal a < toordinal b"
proof -
  from assms(1) have ma: "1 \<le> month a" "month a \<le> 12" and da: "1 \<le> day a" "day a \<le> days_in_month (year a) (month a)"
    by (simp_all add: valid_date_def check_date_fields_def)
  from assms(2) have mb: "1 \<le> month b" "month b \<le> 12" and db: "1 \<le> day b" "day b \<le> days_in_month (year b) (month b)"
    by (simp_all add: valid_date_def check_date_fields_def)
  consider (y) "year a < year b"
    | (m) "year a = year b" "month a < month b"
    | (d) "year a = year b" "month a = month b" "day a < day b"
    using assms(3) by (auto simp: date_lt_def)
  then show ?thesis
  proof cases
    case y
    then have "days_before_year (year a + 1) \<le> days_before_year (year b)"
      by (intro days_before_year_mono) simp
    then show ?thesis
      using toordinal_in_year(2) [OF assms(1)] toordinal_in_year(1) [OF assms(2)] by linarith
  next
    case m
    have "days_before_month (year a) (month a) + days_in_month (year a) (month a)
          \<le> days_before_month (year a) (month b)"
      using ma mb m by (intro days_before_month_mono) auto
    then show ?thesis using m da db by (simp add: toordinal_def ymd2ord_def)
  next
    case d
    then show ?thesis by (simp add: toordinal_def ymd2ord_def)
  qed
qed

lemma date_lt_cases: "date_lt a b \<or> date_lt b a \<or> a = b"
  by (cases a; cases b) (auto simp: date_lt_def)

lemma toordinal_inj:
  assumes "valid_date a" "valid_date b" "toordinal a = toordinal b"
  shows "a = b"
  using date_lt_cases [of a b] toordinal_strict_mono [OF assms(1,2)]
    toordinal_strict_mono [OF assms(2,1)] assms(3) by auto

lemma date_lt_iff_toordinal:
  assumes "valid_date a" "valid_date b"
  shows "date_lt a b \<longleftrightarrow> toordinal a < toordinal b"
  using date_lt_cases [of a b] toordinal_strict_mono [OF assms(1,2)]
    toordinal_strict_mono [OF assms(2,1)] by auto

text \<open>One day later: the ordinal grows by one and the date stays valid.\<close>

lemma next_day_toordinal:
  assumes "valid_date a" "next_day a = Inr b"
  shows "valid_date b \<and> toordinal b = toordinal a + 1"
proof -
  from assms(1) have y: "MINYEAR \<le> year a" "year a \<le> MAXYEAR" and m: "1 \<le> month a" "month a \<le> 12"
    and d: "1 \<le> day a" "day a \<le> days_in_month (year a) (month a)"
    by (simp_all add: valid_date_def check_date_fields_def)
  consider (day) "day a < days_in_month (year a) (month a)"
    | (mon) "day a = days_in_month (year a) (month a)" "month a < 12"
    | (yr) "day a = days_in_month (year a) (month a)" "month a = 12" "year a < MAXYEAR"
    | (ov) "day a = days_in_month (year a) (month a)" "month a = 12" "\<not> year a < MAXYEAR"
    using d m by linarith
  then show ?thesis
  proof cases
    case day
    then have "b = a\<lparr>day := day a + 1\<rparr>" using assms(2) by (simp add: next_day_def)
    then show ?thesis using y m d day
      by (simp add: valid_date_def check_date_fields_def toordinal_def ymd2ord_def)
  next
    case mon
    then have b: "b = a\<lparr>month := month a + 1, day := 1\<rparr>" using assms(2) by (simp add: next_day_def)
    have "1 \<le> days_in_month (year a) (month a + 1)"
      using days_in_month_bounds [of "month a + 1" "year a"] m mon by simp
    then show ?thesis using y m mon b days_before_month_step [of "month a" "year a"]
      by (simp add: valid_date_def check_date_fields_def toordinal_def ymd2ord_def)
  next
    case yr
    then have b: "b = \<lparr>year = year a + 1, month = 1, day = 1\<rparr>" using assms(2) by (simp add: next_day_def)
    have "1 \<le> days_in_month (year a + 1) 1"
      by (simp add: days_in_month_def DAYS_IN_MONTH_def)
    then show ?thesis
      using y yr b days_before_month_12 [of "year a"] days_before_year_step [of "year a"]
      by (simp add: valid_date_def check_date_fields_def toordinal_def ymd2ord_def
          days_before_month_1 MINYEAR_def MAXYEAR_def)
  next
    case ov
    then show ?thesis using assms(2) by (simp add: next_day_def)
  qed
qed

lemma add_days_toordinal:
  assumes "valid_date a" "add_days a n = Inr b"
  shows "valid_date b \<and> toordinal b = toordinal a + int n"
  using assms
proof (induction n arbitrary: a)
  case 0
  then show ?case by simp
next
  case (Suc n)
  then obtain c where c: "next_day a = Inr c" "add_days c n = Inr b"
    by (auto split: sum.splits)
  from next_day_toordinal [OF Suc.prems(1) c(1)] Suc.IH [OF _ c(2)]
  show ?case by simp
qed

subsection \<open>Replacing the year\<close>

lemma replace_year_spec:
  assumes "valid_date bd" "MINYEAR \<le> y" "y \<le> MAXYEAR"
  shows "replace_year bd y = Inr (spec_candidate_in y bd)"
    and "valid_date (spec_candidate_in y bd)"
proof -
  from assms(1) have m: "1 \<le> month bd" "month bd \<le> 12"
    and d: "1 \<le> day bd" "day bd \<le> days_in_month (year bd) (month bd)"
    by (simp_all add: valid_date_def check_date_fields_def)
  show "replace_year bd y = Inr (spec_candidate_in y bd)"
  proof (cases "month bd = 2")
    case True
    with d have "day bd \<le> 29" by (simp add: days_in_month_feb split: if_splits)
    then show ?thesis using True d assms(2,3)
      by (auto simp: replace_year_def try_except_ValueError_def date_new_def check_date_fields_def
          spec_candidate_in_def days_in_month_feb)
  next
    case False
    then have "days_in_month y (month bd) = days_in_month (year bd) (month bd)"
      by (simp add: days_in_month_def)
    then show ?thesis using False m d assms(2,3)
      by (simp add: replace_year_def try_except_ValueError_def date_new_def check_date_fields_def
          spec_candidate_in_def)
  qed
  show "valid_date (spec_candidate_in y bd)"
  proof (cases "month bd = 2")
    case True
    with d have "day bd \<le> 29" by (simp add: days_in_month_feb split: if_splits)
    then show ?thesis using True d assms(2,3)
      by (auto simp: valid_date_def check_date_fields_def spec_candidate_in_def days_in_month_feb)
  next
    case False
    then have "days_in_month y (month bd) = days_in_month (year bd) (month bd)"
      by (simp add: days_in_month_def)
    then show ?thesis using False m d assms(2,3)
      by (simp add: valid_date_def check_date_fields_def spec_candidate_in_def)
  qed
qed


subsection \<open>No overflow when shifting off the weekend\<close>

lemma days_in_month_12: "days_in_month y 12 = 31"
  by (simp add: days_in_month_def DAYS_IN_MONTH_def)

lemma next_day_ok:
  assumes "valid_date c" "year c < MAXYEAR \<or> month c < 12 \<or> day c \<le> 30"
  shows "\<exists>b. next_day c = Inr b"
proof (cases "day c < days_in_month (year c) (month c) \<or> month c < 12")
  case True
  then show ?thesis by (auto simp: next_day_def)
next
  case False
  with assms(1) have "month c = 12" by (simp add: valid_date_def check_date_fields_def)
  with False assms(2) have "year c < MAXYEAR" by (simp add: days_in_month_12)
  with False show ?thesis by (simp add: next_day_def)
qed

lemma add_days_1_ok:
  assumes "valid_date c" "year c < MAXYEAR \<or> month c < 12 \<or> day c \<le> 30"
  shows "\<exists>cd. add_days c (Suc 0) = Inr cd"
  using next_day_ok [OF assms] by auto

lemma add_days_2_ok:
  assumes "valid_date c" "year c < MAXYEAR \<or> month c < 12 \<or> day c \<le> 29"
  shows "\<exists>cd. add_days c (Suc (Suc 0)) = Inr cd"
proof -
  from assms obtain b where b: "next_day c = Inr b"
    using next_day_ok [of c] by auto
  have vb: "valid_date b" using next_day_toordinal [OF assms(1) b] by simp
  have "year b < MAXYEAR \<or> month b < 12 \<or> day b \<le> 30"
  proof (cases "day c < days_in_month (year c) (month c)")
    case True
    then have "b = c\<lparr>day := day c + 1\<rparr>" using b by (simp add: next_day_def)
    then show ?thesis using assms(2) by auto
  next
    case False
    show ?thesis
    proof (cases "month c < 12")
      case True
      with False have "b = c\<lparr>month := month c + 1, day := 1\<rparr>" using b by (simp add: next_day_def)
      then show ?thesis by simp
    next
      case m: False
      with False b have "b = \<lparr>year = year c + 1, month = 1, day = 1\<rparr>"
        by (simp add: next_day_def split: if_splits)
      then show ?thesis by simp
    qed
  qed
  from add_days_1_ok [OF vb this] b show ?thesis by simp
qed

subsection \<open>One record of the loop\<close>

lemma valid_date_year:
  "valid_date d \<Longrightarrow> MINYEAR \<le> year d \<and> year d \<le> MAXYEAR"
  by (simp add: valid_date_def check_date_fields_def)

lemma add_days_shift:
  "(if weekday c = 5 then add_days c 2 else if weekday c = 6 then add_days c 1 else Inr c)
   = add_days c (nat (spec_shift c))"
  by (simp add: spec_shift_def numeral_2_eq_2)

lemma spec_candidate_valid:
  assumes "valid_date today" "valid_date bd"
    and "year today < MAXYEAR \<or> \<not> toordinal (spec_candidate_in (year today) bd) < toordinal today"
  shows "valid_date (spec_candidate today bd)"
proof -
  note y = valid_date_year [OF assms(1)]
  have this_year: "valid_date (spec_candidate_in (year today) bd)"
    using y by (intro replace_year_spec(2) [OF assms(2)]) auto
  show ?thesis
  proof (cases "toordinal (spec_candidate_in (year today) bd) < toordinal today")
    case True
    with assms(3) have "year today + 1 \<le> MAXYEAR" by simp
    moreover have "MINYEAR \<le> year today + 1" using y by simp
    ultimately have "valid_date (spec_candidate_in (year today + 1) bd)"
      by (intro replace_year_spec(2) [OF assms(2)])
    with True show ?thesis by (simp add: spec_candidate_def)
  next
    case False
    with this_year show ?thesis by (simp add: spec_candidate_def)
  qed
qed

lemma upcoming_entry_spec:
  assumes "valid_date today" "birthday r = Some bd" "valid_date bd"
    and "year today < MAXYEAR \<or> \<not> toordinal (spec_candidate_in (year today) bd) < toordinal today"
  shows "upcoming_entry today r =
     (if spec_upcoming today bd
      then (case add_days (spec_candidate today bd) (nat (spec_shift (spec_candidate today bd))) of
              Inl e \<Rightarrow> Inl e
            | Inr cd \<Rightarrow> Inr (Some \<lparr>entry_name = name r, congratulation_date = strftime_dmY cd\<rparr>))
      else Inr None)"
proof -
  note y = valid_date_year [OF assms(1)]
  have r1: "replace_year bd (year today) = Inr (spec_candidate_in (year today) bd)"
    and v1: "valid_date (spec_candidate_in (year today) bd)"
    using y by (auto intro: replace_year_spec [OF assms(3)])
  have lt: "date_lt (spec_candidate_in (year today) bd) today
            \<longleftrightarrow> toordinal (spec_candidate_in (year today) bd) < toordinal today"
    by (rule date_lt_iff_toordinal [OF v1 assms(1)])
  have r2: "(if date_lt (spec_candidate_in (year today) bd) today
             then replace_year bd (year today + 1)
             else Inr (spec_candidate_in (year today) bd)) = Inr (spec_candidate today bd)"
  proof (cases "toordinal (spec_candidate_in (year today) bd) < toordinal today")
    case True
    with assms(4) have "year today + 1 \<le> MAXYEAR" by simp
    moreover have "MINYEAR \<le> year today + 1" using y by simp
    ultimately have "replace_year bd (year today + 1) = Inr (spec_candidate_in (year today + 1) bd)"
      by (intro replace_year_spec(1) [OF assms(3)])
    with True lt show ?thesis by (simp add: spec_candidate_def)
  next
    case False
    with lt show ?thesis by (simp add: spec_candidate_def)
  qed
  show ?thesis
    unfolding upcoming_entry_def assms(2) option.case r1 sum.case r2 Let_def add_days_shift
    by (simp add: days_between_def spec_upcoming_def spec_days_until_def)
qed


lemma days_before_month_ge_31:
  assumes "2 \<le> m" "m \<le> 12"
  shows "31 \<le> days_before_month y m"
proof -
  have "days_before_month y 1 + days_in_month y 1 \<le> days_before_month y m"
    using assms by (intro days_before_month_mono) auto
  then show ?thesis by (simp add: days_before_month_1 days_in_month_def DAYS_IN_MONTH_def)
qed

lemma last_days_weekday:
  assumes "year c = MAXYEAR" "month c = 12" "30 \<le> day c" "day c \<le> 31"
  shows "spec_shift c = 0"
proof -
  have "day c = 30 \<or> day c = 31" using assms by arith
  moreover have "days_before_year 9999 = 3651694"
    by (simp add: days_before_year_def)
  ultimately show ?thesis using assms(1,2)
    by (auto simp: spec_shift_def weekday_def toordinal_def ymd2ord_def MAXYEAR_def
        days_before_month_def DAYS_BEFORE_MONTH_def is_leap_def)
qed

lemma shift_no_overflow:
  assumes "valid_date today" "valid_date bd"
    and "year today < MAXYEAR \<or> \<not> toordinal (spec_candidate_in (year today) bd) < toordinal today"
    and "spec_upcoming today bd"
  shows "\<exists>cd. add_days (spec_candidate today bd) (nat (spec_shift (spec_candidate today bd)))
               = Inr cd"
proof -
  define c where "c = spec_candidate today bd"
  have vc: "valid_date c" unfolding c_def by (rule spec_candidate_valid [OF assms(1-3)])
  have safe: "year c < MAXYEAR \<or> month c < 12 \<or> day c \<le> 29" if "spec_shift c \<noteq> 0"
  proof (cases "toordinal (spec_candidate_in (year today) bd) < toordinal today")
    case True
    then have yc: "year c = year today + 1"
      by (simp add: c_def spec_candidate_def spec_candidate_in_def)
    have "toordinal c \<le> toordinal today + 7"
      using assms(4) by (simp add: spec_upcoming_def spec_days_until_def c_def)
    moreover have "toordinal today \<le> days_before_year (year today + 1)"
      by (rule toordinal_in_year(2) [OF assms(1)])
    ultimately have le: "days_before_month (year c) (month c) + day c \<le> 7"
      by (simp add: toordinal_def [of c] ymd2ord_def yc)
    have m: "1 \<le> month c" "month c \<le> 12" and d: "1 \<le> day c"
      using vc by (simp_all add: valid_date_def check_date_fields_def)
    have "month c < 2"
    proof (rule ccontr)
      assume "\<not> month c < 2"
      then have "31 \<le> days_before_month (year c) (month c)"
        using m by (intro days_before_month_ge_31) auto
      with le d show False by simp
    qed
    then show ?thesis by simp
  next
    case False
    then have yc: "year c = year today"
      by (simp add: c_def spec_candidate_def spec_candidate_in_def)
    show ?thesis
    proof (rule ccontr)
      assume "\<not> ?thesis"
      then have "year c = MAXYEAR" "month c = 12" "30 \<le> day c"
        using vc by (auto simp: valid_date_def check_date_fields_def)
      moreover have "day c \<le> 31"
        using vc \<open>month c = 12\<close> by (simp add: valid_date_def check_date_fields_def days_in_month_12)
      ultimately have "spec_shift c = 0" by (rule last_days_weekday)
      with that show False by simp
    qed
  qed
  have "spec_shift c = 0 \<or> spec_shift c = 1 \<or> spec_shift c = 2"
    by (simp add: spec_shift_def)
  then consider "spec_shift c = 0" | "spec_shift c = 1" | "spec_shift c = 2"
    by blast
  then show ?thesis
  proof cases
    case 1
    then show ?thesis by (simp add: c_def [symmetric])
  next
    case 2
    with safe have "year c < MAXYEAR \<or> month c < 12 \<or> day c \<le> 30" by auto
    from add_days_1_ok [OF vc this] 2 show ?thesis by (simp add: c_def [symmetric])
  next
    case 3
    with safe have "year c < MAXYEAR \<or> month c < 12 \<or> day c \<le> 29" by auto
    from add_days_2_ok [OF vc this] 3 show ?thesis by (simp add: c_def [symmetric] numeral_2_eq_2)
  qed
qed

text \<open>The loop, when every record's body returns.\<close>

lemma upcoming_loop_returns:
  assumes "\<forall>r \<in> set rs. upcoming_entry today r = Inr (f r)"
  shows "upcoming_loop today rs book acc = (Inr (acc @ List.map_filter f rs), book)"
  using assms
proof (induction rs arbitrary: acc)
  case Nil
  then show ?case by simp
next
  case (Cons r rs)
  then show ?case by (cases "f r") simp_all
qed


lemma upcoming_entry_no_birthday:
  "birthday r = None \<Longrightarrow> upcoming_entry today r = Inr None"
  by (simp add: upcoming_entry_def)

lemma upcoming_entry_result:
  assumes "valid_date today" "birthday r = Some bd" "valid_date bd"
    and "year today < MAXYEAR \<or> \<not> toordinal (spec_candidate_in (year today) bd) < toordinal today"
  shows "\<exists>x. upcoming_entry today r = Inr x \<and>
           (if spec_upcoming today bd
            then \<exists>cd. x = Some \<lparr>entry_name = name r, congratulation_date = strftime_dmY cd\<rparr>
                   \<and> valid_date cd
                   \<and> toordinal cd = toordinal (spec_candidate today bd)
                                     + spec_shift (spec_candidate today bd)
            else x = None)"
proof (cases "spec_upcoming today bd")
  case True
  from shift_no_overflow [OF assms(1,3,4) True] obtain cd where
    cd: "add_days (spec_candidate today bd) (nat (spec_shift (spec_candidate today bd))) = Inr cd"
    by blast
  have "0 \<le> spec_shift (spec_candidate today bd)" by (simp add: spec_shift_def)
  with add_days_toordinal [OF spec_candidate_valid [OF assms(1,3,4)] cd]
  have "valid_date cd"
    "toordinal cd = toordinal (spec_candidate today bd) + spec_shift (spec_candidate today bd)"
    by simp_all
  then show ?thesis
    using upcoming_entry_spec [OF assms] True cd by auto
next
  case False
  then show ?thesis using upcoming_entry_spec [OF assms] by simp
qed

lemma list_all2_filter_map_filter:
  assumes "\<forall>x \<in> set xs. if Q x then \<exists>e. f x = Some e \<and> P x e else f x = None"
  shows "list_all2 P (filter Q xs) (List.map_filter f xs)"
  using assms
proof (induction xs)
  case Nil
  then show ?case by simp
next
  case (Cons x xs)
  then show ?case by (cases "Q x") auto
qed

lemma list_all2_names:
  "list_all2 (\<lambda>r e. entry_name e = name r \<and> R r e) rs es \<Longrightarrow> map entry_name es = map name rs"
  by (induction rs es rule: list_all2_induct) simp_all

text \<open>What the whole call returns when no record's body raises.\<close>

lemma get_upcoming_birthdays_result:
  assumes "valid_date today"
    and "\<forall>r \<in> set (dict_values book). \<forall>bd. birthday r = Some bd \<longrightarrow> valid_date bd"
    and "\<forall>r \<in> set (dict_values book). \<forall>bd. birthday r = Some bd \<longrightarrow>
           (year today < MAXYEAR \<or> \<not> toordinal (spec_candidate_in (year today) bd) < toordinal today)"
  shows "\<exists>out. get_upcoming_birthdays today book = (Inr out, book) \<and>
           list_all2 (\<lambda>r e. entry_name e = name r \<and>
               (\<exists>bd cd. birthday r = Some bd \<and> valid_date cd
                  \<and> toordinal cd = toordinal (spec_candidate today bd)
                                    + spec_shift (spec_candidate today bd)
                  \<and> congratulation_date e = strftime_dmY cd))
             (filter (spec_included today) (dict_values book)) out"
proof -
  define f where "f r = (case upcoming_entry today r of Inr x \<Rightarrow> x | Inl e \<Rightarrow> None)" for r
  let ?P = "\<lambda>r e. entry_name e = name r \<and>
               (\<exists>bd cd. birthday r = Some bd \<and> valid_date cd
                  \<and> toordinal cd = toordinal (spec_candidate today bd)
                                    + spec_shift (spec_candidate today bd)
                  \<and> congratulation_date e = strftime_dmY cd)"
  have each: "upcoming_entry today r = Inr (f r) \<and>
              (if spec_included today r then \<exists>e. f r = Some e \<and> ?P r e else f r = None)"
    if "r \<in> set (dict_values book)" for r
  proof (cases "birthday r")
    case None
    then show ?thesis
      by (simp add: f_def upcoming_entry_no_birthday spec_included_def)
  next
    case (Some bd)
    from that assms(2,3) Some have "valid_date bd"
      "year today < MAXYEAR \<or> \<not> toordinal (spec_candidate_in (year today) bd) < toordinal today"
      by blast+
    from upcoming_entry_result [OF assms(1) Some this]
    show ?thesis using Some by (auto simp: f_def spec_included_def split: if_splits)
  qed
  then have "upcoming_loop today (dict_values book) book [] =
             (Inr ([] @ List.map_filter f (dict_values book)), book)"
    by (intro upcoming_loop_returns) blast
  moreover have "list_all2 ?P (filter (spec_included today) (dict_values book))
                   (List.map_filter f (dict_values book))"
    by (rule list_all2_filter_map_filter) (use each in blast)
  ultimately show ?thesis by (simp add: get_upcoming_birthdays_def)
qed

subsection \<open>Evaluating on concrete dates and texts\<close>

declare decimal_digits.simps [simp del]

lemmas date_eval =
  valid_date_def check_date_fields_def MINYEAR_def MAXYEAR_def days_in_month_def DAYS_IN_MONTH_def
  is_leap_def toordinal_def ymd2ord_def days_before_year_def days_before_month_def
  DAYS_BEFORE_MONTH_def weekday_def date_lt_def days_between_def

lemmas spec_eval =
  spec_candidate_in_def spec_candidate_def spec_days_until_def spec_upcoming_def
  spec_included_def spec_shift_def

lemmas format_eval = strftime_dmY_def pad2_def pad4_def digit_char_def asc_def decimal_digits.simps

lemmas upcoming_eval =
  get_upcoming_birthdays_def dict_values_def upcoming_entry_def replace_year_def
  try_except_ValueError_def date_new_def next_day_def numeral_2_eq_2

lemmas parse_eval =
  Birthday_def strptime_dmY_def strptime_matches_def re_d_def re_m_def re_Y_def consumed_def
  py_int_def strip_blanks_def decimal_def in_range_def is_digit_def digit_val_def date_new_def
  some_digits_def asc_def

lemmas parse_table_eval =
  Birthday_def strptime_dmY_def strptime_matches_def re_d_def re_m_def re_Y_def consumed_def
  py_int_def strip_blanks_def decimal_def in_range_def is_digit_def digit_val_def date_new_def
  asc_def

subsection \<open>Digits\<close>



lemma unicode_like_ascii:
  assumes "unicode_like D" "ascii_digit c"
  shows "is_digit D c" and "digit_val D c = ascii_val c"
  using assms by (simp_all add: unicode_like_def ascii_digit_def is_digit_def digit_val_def ascii_val_def)

lemma some_digits_unicode_like: "unicode_like some_digits"
  by (simp add: unicode_like_def some_digits_def)










subsection \<open>What the groups of the pattern match\<close>

lemma re_d_rests:
  "r \<in> set (re_rests D re_d s) \<longleftrightarrow>
     (\<exists>a. s = a # r \<and> in_range CHR ''1'' CHR ''9'' a) \<or>
     (\<exists>a b. s = a # b # r \<and>
        ((a = 51 \<and> in_range CHR ''0'' CHR ''1'' b) \<or>
         (in_range CHR ''1'' CHR ''2'' a \<and> is_digit D b) \<or>
         (a = 48 \<and> in_range CHR ''1'' CHR ''9'' b) \<or>
         (a = 32 \<and> in_range CHR ''1'' CHR ''9'' b)))"
proof (cases s)
  case Nil
  then show ?thesis by (simp add: re_d_def)
next
  case (Cons a s')
  show ?thesis
  proof (cases s')
    case Nil
    with Cons show ?thesis by (auto simp: re_d_def)
  next
    case (Cons b s'')
    with \<open>s = a # s'\<close> show ?thesis by (auto simp: re_d_def)
  qed
qed

lemma re_m_rests:
  "r \<in> set (re_rests D re_m s) \<longleftrightarrow>
     (\<exists>a. s = a # r \<and> in_range CHR ''1'' CHR ''9'' a) \<or>
     (\<exists>a b. s = a # b # r \<and>
        ((a = 49 \<and> in_range CHR ''0'' CHR ''2'' b) \<or>
         (a = 48 \<and> in_range CHR ''1'' CHR ''9'' b)))"
proof (cases s)
  case Nil
  then show ?thesis by (simp add: re_m_def)
next
  case (Cons a s')
  show ?thesis
  proof (cases s')
    case Nil
    with Cons show ?thesis by (auto simp: re_m_def)
  next
    case (Cons b s'')
    with \<open>s = a # s'\<close> show ?thesis by (auto simp: re_m_def)
  qed
qed

lemma re_Y_rests:
  "r \<in> set (re_rests D re_Y s) \<longleftrightarrow>
     (\<exists>a b c d. s = a # b # c # d # r \<and> is_digit D a \<and> is_digit D b \<and> is_digit D c \<and> is_digit D d)"
  by (auto simp: re_Y_def split: list.splits if_splits)

lemma re_dot_rests: "r \<in> set (re_rests D (Chr CHR ''.'') s) \<longleftrightarrow> s = 46 # r"
  by (auto split: list.splits)

text \<open>In terms of the texts read as a day, a month and a year.\<close>

lemma re_d_rests_reads:
  "r \<in> set (re_rests D re_d s) \<longleftrightarrow> (\<exists>t n. s = t @ r \<and> day_reads D t n)"
  (is "?L \<longleftrightarrow> ?R")
proof
  assume ?L
  then consider a where "s = [a] @ r" "in_range CHR ''1'' CHR ''9'' a"
    | a b where "s = [a, b] @ r"
      "(a = 51 \<and> in_range CHR ''0'' CHR ''1'' b) \<or>
         (in_range CHR ''1'' CHR ''2'' a \<and> is_digit D b) \<or>
         (a = 48 \<and> in_range CHR ''1'' CHR ''9'' b) \<or>
         (a = 32 \<and> in_range CHR ''1'' CHR ''9'' b)"
    unfolding re_d_rests by auto
  then show ?R
  proof cases
    case 1
    then have "day_reads D [a] (ascii_val a)" by (simp add: day_reads_def)
    with 1(1) show ?thesis by blast
  next
    case 2
    then have "\<exists>n. day_reads D [a, b] n" by (auto simp: day_reads_def)
    with 2(1) show ?thesis by blast
  qed
next
  assume ?R
  then obtain t n where t: "s = t @ r" "day_reads D t n" by blast
  from t(2) show ?L unfolding re_d_rests t(1)
    by (auto simp: day_reads_def split: list.splits)
qed

lemma re_m_rests_reads:
  "r \<in> set (re_rests D re_m s) \<longleftrightarrow> (\<exists>t n. s = t @ r \<and> month_reads t n)"
  (is "?L \<longleftrightarrow> ?R")
proof
  assume ?L
  then consider a where "s = [a] @ r" "in_range CHR ''1'' CHR ''9'' a"
    | a b where "s = [a, b] @ r"
      "(a = 49 \<and> in_range CHR ''0'' CHR ''2'' b) \<or> (a = 48 \<and> in_range CHR ''1'' CHR ''9'' b)"
    unfolding re_m_rests by auto
  then show ?R
  proof cases
    case 1
    then have "month_reads [a] (ascii_val a)" by (simp add: month_reads_def)
    with 1(1) show ?thesis by blast
  next
    case 2
    then have "\<exists>n. month_reads [a, b] n" by (auto simp: month_reads_def)
    with 2(1) show ?thesis by blast
  qed
next
  assume ?R
  then obtain t n where t: "s = t @ r" "month_reads t n" by blast
  from t(2) show ?L unfolding re_m_rests t(1)
    by (auto simp: month_reads_def split: list.splits)
qed

lemma re_Y_rests_reads:
  "r \<in> set (re_rests D re_Y s) \<longleftrightarrow> (\<exists>t n. s = t @ r \<and> year_reads D t n)"
  (is "?L \<longleftrightarrow> ?R")
proof
  assume ?L
  then obtain a b c d where "s = [a, b, c, d] @ r" "is_digit D a" "is_digit D b" "is_digit D c"
    "is_digit D d"
    unfolding re_Y_rests by auto
  moreover from this have "year_reads D [a, b, c, d] (decimal D [a, b, c, d])"
    by (simp add: year_reads_def)
  ultimately show ?R by blast
next
  assume ?R
  then obtain t n where t: "s = t @ r" "year_reads D t n" by blast
  from t(2) obtain a b c d where "t = [a, b, c, d]"
    by (auto simp: year_reads_def length_Suc_conv numeral_eq_Suc)
  with t show ?L unfolding re_Y_rests by (auto simp: year_reads_def)
qed

subsection \<open>The numbers the texts denote\<close>

lemma in_range_ascii:
  "in_range CHR ''1'' CHR ''9'' c \<Longrightarrow> ascii_digit c"
  "in_range CHR ''0'' CHR ''1'' c \<Longrightarrow> ascii_digit c"
  "in_range CHR ''1'' CHR ''2'' c \<Longrightarrow> ascii_digit c"
  "in_range CHR ''0'' CHR ''2'' c \<Longrightarrow> ascii_digit c"
  by (simp_all add: in_range_def ascii_digit_def)

lemma ascii_digit_consts: "ascii_digit 48" "ascii_digit 49" "ascii_digit 51"
  "\<not> ascii_digit 32" "\<not> ascii_digit 46"
  by (simp_all add: ascii_digit_def)

lemma unicode_like_not_digit:
  assumes "unicode_like D"
  shows "\<not> is_digit D 46" and "\<not> is_digit D 32"
  using assms by (simp_all add: unicode_like_def is_digit_def)

lemma py_int_digits:
  assumes "unicode_like D" "t \<noteq> []" "list_all (is_digit D) t"
  shows "py_int D t = Some (decimal D t)"
proof -
  have nb: "\<forall>c \<in> set t. c \<noteq> 32"
    using assms(3) unicode_like_not_digit(2) [OF assms(1)] by (auto simp: list_all_iff)
  have "dropWhile (\<lambda>c. c = 32) t = t"
    using nb assms(2) by (cases t) auto
  moreover have "dropWhile (\<lambda>c. c = 32) (rev t) = rev t"
  proof (cases "rev t")
    case Nil
    then show ?thesis by simp
  next
    case (Cons x xs)
    then have "x \<in> set (rev t)" by simp
    then have "x \<noteq> 32" using nb by simp
    with Cons show ?thesis by simp
  qed
  ultimately have "strip_blanks t = t" by (simp add: strip_blanks_def)
  then show ?thesis using assms(2,3) by (simp add: py_int_def)
qed

lemma py_int_blank:
  assumes "unicode_like D" "is_digit D b"
  shows "py_int D [32, b] = Some (digit_val D b)"
proof -
  have "b \<noteq> 32" using assms unicode_like_not_digit(2) by auto
  then have "strip_blanks [32, b] = [b]" by (simp add: strip_blanks_def)
  then show ?thesis using assms(2) by (simp add: py_int_def decimal_def)
qed

lemma day_reads_value:
  assumes "unicode_like D" "day_reads D t n"
  shows "py_int D t = Some n" and "46 \<notin> set t"
proof -
  note a = unicode_like_ascii [OF assms(1)] and nd = unicode_like_not_digit [OF assms(1)]
  from assms(2) consider
      (one) a where "t = [a]" "ascii_digit a" "n = ascii_val a"
    | (two) a b where "t = [a, b]" "ascii_digit a" "is_digit D b"
        "n = 10 * ascii_val a + digit_val D b"
    | (blank) b where "t = [32, b]" "ascii_digit b" "n = ascii_val b"
    using in_range_ascii ascii_digit_consts a
    by (auto simp: day_reads_def ascii_val_def split: list.splits)
  then show "py_int D t = Some n"
  proof cases
    case one
    then show ?thesis using py_int_digits [OF assms(1), of "[a]"] a [of a]
      by (simp add: decimal_def)
  next
    case two
    then show ?thesis using py_int_digits [OF assms(1), of "[a, b]"] a [of a]
      by (simp add: decimal_def)
  next
    case blank
    then show ?thesis using py_int_blank [OF assms(1), of b] a [of b] by simp
  qed
  from assms(2) show "46 \<notin> set t"
    using nd(1) in_range_ascii ascii_digit_consts(5)
    by (auto simp: day_reads_def split: list.splits)
qed

lemma month_reads_value:
  assumes "unicode_like D" "month_reads t n"
  shows "py_int D t = Some n" and "46 \<notin> set t"
proof -
  note a = unicode_like_ascii [OF assms(1)]
  from assms(2) consider
      (one) a where "t = [a]" "ascii_digit a" "n = ascii_val a"
    | (two) a b where "t = [a, b]" "ascii_digit a" "ascii_digit b"
        "n = 10 * ascii_val a + ascii_val b"
    using in_range_ascii ascii_digit_consts
    by (auto simp: month_reads_def ascii_val_def split: list.splits)
  then show "py_int D t = Some n"
  proof cases
    case one
    then show ?thesis using py_int_digits [OF assms(1), of "[a]"] a [of a]
      by (simp add: decimal_def)
  next
    case two
    then show ?thesis using py_int_digits [OF assms(1), of "[a, b]"] a [of a] a [of b]
      by (simp add: decimal_def)
  qed
  from assms(2) show "46 \<notin> set t"
    using in_range_ascii ascii_digit_consts(5)
    by (auto simp: month_reads_def split: list.splits)
qed

lemma year_reads_value:
  assumes "unicode_like D" "year_reads D t n"
  shows "py_int D t = Some n" and "length t = 4"
proof -
  from assms(2) have "t \<noteq> []" "list_all (is_digit D) t" "n = decimal D t" "length t = 4"
    by (auto simp: year_reads_def)
  then show "py_int D t = Some n" "length t = 4"
    using py_int_digits [OF assms(1)] by simp_all
qed

text \<open>A text is cut at its first dot in one way only.\<close>

lemma first_dot_unique:
  assumes "c \<notin> set t" "c \<notin> set t'" "t @ c # u = t' @ c # u'"
  shows "t = t' \<and> u = u'"
  using assms
proof (induction t arbitrary: t')
  case Nil
  then show ?case by (cases t') auto
next
  case (Cons x t)
  then show ?case by (cases t') auto
qed

subsection \<open>The matches of the whole pattern\<close>

lemma consumed_append: "consumed (t @ r) r = t"
  by (simp add: consumed_def)

lemma strptime_matches_mem:
  "x \<in> set (strptime_matches D s) \<longleftrightarrow>
     (\<exists>r1 \<in> set (re_rests D re_d s). \<exists>r2 \<in> set (re_rests D (Chr CHR ''.'') r1).
      \<exists>r3 \<in> set (re_rests D re_m r2). \<exists>r4 \<in> set (re_rests D (Chr CHR ''.'') r3).
      \<exists>r5 \<in> set (re_rests D re_Y r4).
        x = (consumed s r1, consumed r2 r3, consumed r4 r5, r5))"
  unfolding strptime_matches_def
  by (simp del: re_rests.simps add: image_iff)

lemma strptime_matches_iff:
  "x \<in> set (strptime_matches D s) \<longleftrightarrow>
     (\<exists>dn mn yn dt mt yt rest.
        day_reads D dt dn \<and> month_reads mt mn \<and> year_reads D yt yn \<and>
        s = dt @ [46] @ mt @ [46] @ yt @ rest \<and> x = (dt, mt, yt, rest))"
  (is "?L \<longleftrightarrow> ?R")
proof
  assume ?L
  then obtain r1 r2 r3 r4 r5 where r: "r1 \<in> set (re_rests D re_d s)"
    "r2 \<in> set (re_rests D (Chr CHR ''.'') r1)" "r3 \<in> set (re_rests D re_m r2)"
    "r4 \<in> set (re_rests D (Chr CHR ''.'') r3)" "r5 \<in> set (re_rests D re_Y r4)"
    and x: "x = (consumed s r1, consumed r2 r3, consumed r4 r5, r5)"
    unfolding strptime_matches_mem by blast
  from r(1) obtain dt dn where dt: "s = dt @ r1" "day_reads D dt dn"
    unfolding re_d_rests_reads by blast
  from r(2) have r1: "r1 = 46 # r2" unfolding re_dot_rests .
  from r(3) obtain mt mn where mt: "r2 = mt @ r3" "month_reads mt mn"
    unfolding re_m_rests_reads by blast
  from r(4) have r3: "r3 = 46 # r4" unfolding re_dot_rests .
  from r(5) obtain yt yn where yt: "r4 = yt @ r5" "year_reads D yt yn"
    unfolding re_Y_rests_reads by blast
  have "s = dt @ [46] @ mt @ [46] @ yt @ r5"
    by (simp add: dt(1) r1 mt(1) r3 yt(1))
  moreover have "x = (dt, mt, yt, r5)"
    unfolding x dt(1) mt(1) yt(1) consumed_append ..
  ultimately show ?R using dt(2) mt(2) yt(2) by blast
next
  assume ?R
  then obtain dn mn yn dt mt yt rest where h: "day_reads D dt dn" "month_reads mt mn"
    "year_reads D yt yn" "s = dt @ [46] @ mt @ [46] @ yt @ rest" "x = (dt, mt, yt, rest)"
    by blast
  define r1 r2 r3 r4 where "r1 = [46] @ mt @ [46] @ yt @ rest"
    and "r2 = mt @ [46] @ yt @ rest" and "r3 = [46] @ yt @ rest" and "r4 = yt @ rest"
  note d = this
  have "r1 \<in> set (re_rests D re_d s)"
    unfolding re_d_rests_reads using h(1,4) d by auto
  moreover have "r2 \<in> set (re_rests D (Chr CHR ''.'') r1)"
    unfolding re_dot_rests d by simp
  moreover have "r3 \<in> set (re_rests D re_m r2)"
    unfolding re_m_rests_reads using h(2) d by auto
  moreover have "r4 \<in> set (re_rests D (Chr CHR ''.'') r3)"
    unfolding re_dot_rests d by simp
  moreover have "rest \<in> set (re_rests D re_Y r4)"
    unfolding re_Y_rests_reads using h(3) d by auto
  moreover have "x = (consumed s r1, consumed r2 r3, consumed r4 rest, rest)"
    using consumed_append [of dt r1] consumed_append [of mt r3] consumed_append [of yt rest]
    by (simp add: h(4,5) d)
  ultimately show ?L
    unfolding strptime_matches_mem by blast
qed

lemma strptime_matches_unique:
  assumes "unicode_like D"
    and "x \<in> set (strptime_matches D s)" "y \<in> set (strptime_matches D s)"
  shows "x = y"
proof -
  from assms(2) obtain dn mn yn dt mt yt rest where x: "day_reads D dt dn"
    "month_reads mt mn" "year_reads D yt yn"
    "s = dt @ [46] @ mt @ [46] @ yt @ rest" "x = (dt, mt, yt, rest)"
    unfolding strptime_matches_iff by blast
  from assms(3) obtain dn' mn' yn' dt' mt' yt' rest' where y: "day_reads D dt' dn'"
    "month_reads mt' mn'" "year_reads D yt' yn'"
    "s = dt' @ [46] @ mt' @ [46] @ yt' @ rest'" "y = (dt', mt', yt', rest')"
    unfolding strptime_matches_iff by blast
  have "dt @ 46 # (mt @ [46] @ yt @ rest) = dt' @ 46 # (mt' @ [46] @ yt' @ rest')"
    using x(4) y(4) by simp
  from first_dot_unique [OF day_reads_value(2) [OF assms(1) x(1)]
      day_reads_value(2) [OF assms(1) y(1)] this]
  have d: "dt = dt'" and "mt @ 46 # (yt @ rest) = mt' @ 46 # (yt' @ rest')"
    by simp_all
  from first_dot_unique [OF month_reads_value(2) [OF assms(1) x(2)]
      month_reads_value(2) [OF assms(1) y(2)] this(2)]
  have m: "mt = mt'" and "yt @ rest = yt' @ rest'"
    by simp_all
  moreover have "length yt = length yt'"
    using year_reads_value(2) [OF assms(1) x(3)] year_reads_value(2) [OF assms(1) y(3)] by simp
  ultimately have "yt = yt'" "rest = rest'" by simp_all
  with d m show ?thesis by (simp add: x(5) y(5))
qed

lemma strptime_matches_first:
  assumes "unicode_like D" "x \<in> set (strptime_matches D s)"
  shows "\<exists>xs. strptime_matches D s = x # xs"
proof (cases "strptime_matches D s")
  case Nil
  with assms(2) show ?thesis by simp
next
  case (Cons y ys)
  then have "y \<in> set (strptime_matches D s)" by simp
  with assms have "x = y" by (intro strptime_matches_unique [of D x s y])
  with Cons show ?thesis by simp
qed

text \<open>What \<^verbatim>\<open>strptime\<close> accepts, and what it returns.\<close>

lemma strptime_dmY_iff:
  assumes "unicode_like D"
  shows "strptime_dmY D s = Inr b \<longleftrightarrow>
     valid_date b \<and>
     (\<exists>dt mt yt. s = dt @ asc ''.'' @ mt @ asc ''.'' @ yt \<and>
        day_reads D dt (day b) \<and> month_reads mt (month b) \<and> year_reads D yt (year b))"
  (is "?L \<longleftrightarrow> ?R")
proof
  assume l: ?L
  then obtain d m y rest xs where M: "strptime_matches D s = (d, m, y, rest) # xs"
    by (auto simp: strptime_dmY_def split: list.splits)
  with l have rest: "rest = []"
    by (auto simp: strptime_dmY_def split: if_splits)
  from M have "(d, m, y, rest) \<in> set (strptime_matches D s)" by simp
  then obtain dn mn yn where t: "day_reads D d dn" "month_reads m mn" "year_reads D y yn"
    "s = d @ [46] @ m @ [46] @ y @ rest"
    unfolding strptime_matches_iff by blast
  have v: "py_int D d = Some dn" "py_int D m = Some mn" "py_int D y = Some yn"
    using day_reads_value(1) [OF assms t(1)] month_reads_value(1) [OF assms t(2)]
      year_reads_value(1) [OF assms t(3)]
    by simp_all
  from l M rest have "date_new yn mn dn = Inr b"
    by (simp add: strptime_dmY_def v)
  then have b: "b = \<lparr>year = yn, month = mn, day = dn\<rparr>" and "check_date_fields yn mn dn"
    by (auto simp: date_new_def split: if_splits)
  then have "valid_date b" by (simp add: valid_date_def)
  moreover have "s = d @ asc ''.'' @ m @ asc ''.'' @ y"
    using t(4) rest by (simp add: asc_def)
  ultimately show ?R using t(1-3) b by auto
next
  assume ?R
  then obtain dt mt yt where v: "valid_date b" and t: "day_reads D dt (day b)"
    "month_reads mt (month b)" "year_reads D yt (year b)"
    "s = dt @ asc ''.'' @ mt @ asc ''.'' @ yt"
    by blast
  have "s = dt @ [46] @ mt @ [46] @ yt @ []" using t(4) by (simp add: asc_def)
  then have "(dt, mt, yt, []) \<in> set (strptime_matches D s)"
    unfolding strptime_matches_iff using t(1-3) by blast
  then obtain xs where "strptime_matches D s = (dt, mt, yt, []) # xs"
    using strptime_matches_first [OF assms] by blast
  then have "strptime_dmY D s = date_new (year b) (month b) (day b)"
    using day_reads_value(1) [OF assms t(1)] month_reads_value(1) [OF assms t(2)]
      year_reads_value(1) [OF assms t(3)]
    by (simp add: strptime_dmY_def)
  also have "\<dots> = Inr b" using v by (simp add: date_new_def valid_date_def)
  finally show ?L .
qed

lemma Birthday_iff:
  assumes "unicode_like D"
  shows "Birthday D s = Inr b \<longleftrightarrow>
     valid_date b \<and>
     (\<exists>dt mt yt. s = dt @ asc ''.'' @ mt @ asc ''.'' @ yt \<and>
        day_reads D dt (day b) \<and> month_reads mt (month b) \<and> year_reads D yt (year b))"
  unfolding strptime_dmY_iff [OF assms, symmetric] by (simp add: Birthday_def split: sum.splits)

lemma Birthday_error: "Birthday D s = Inl e \<Longrightarrow> e = InvalidDateFormat"
  by (simp add: Birthday_def split: sum.splits)

subsection \<open>Texts of the pattern DD.MM.YYYY\<close>






lemma unicode_like_values:
  assumes "unicode_like D"
  shows "D 48 = Some 0" "D 49 = Some 1" "D 50 = Some 2" "D 51 = Some 3" "D 52 = Some 4"
    "D 53 = Some 5" "D 54 = Some 6" "D 55 = Some 7" "D 56 = Some 8" "D 57 = Some 9"
    "D 46 = None" "D 32 = None"
  using assms by (simp_all add: unicode_like_def)

subsection \<open>Phones, lookup and the book\<close>

text \<open>
  Claim C3. For every string \<open>s\<close>, \<^verbatim>\<open>Phone(s)\<close> succeeds if and only if the digits of
  \<open>s\<close>, all other characters dropped, are exactly ten; the value stored is then that
  string of ten digits, and otherwise the construction raises the error of an invalid
  phone.
\<close>

theorem Phone_iff_ten_digits:
  "Phone D s = (if length (filter (is_digit D) s) = 10 then Inr (filter (is_digit D) s)
                else Inl PhoneInvalid)"
  by (simp add: Phone_def strip_non_digits_def is_valid_phone_def list_all_iff)

theorem Phone_iff_ten_digits_witness:
  "Phone some_digits (asc ''(050) 123-45-67'') = Inr (asc ''0501234567'')
   \<and> Phone some_digits (asc ''123'') = Inl PhoneInvalid"
  using Phone_iff_ten_digits [of some_digits "asc ''(050) 123-45-67''"]
    Phone_iff_ten_digits [of some_digits "asc ''123''"]
  by (simp add: is_digit_def some_digits_def asc_def)

text \<open>
  Claim C5. On a record that holds a phone equal to the digits of \<open>old\<close>,
  \<^verbatim>\<open>edit_phone(old, new)\<close> with a \<open>new\<close> whose digits are not ten in number raises the
  error of an invalid phone and leaves the record, its list of phones included, as it
  was.
\<close>

theorem edit_phone_invalid_new_unchanged:
  assumes "strip_non_digits D old \<in> set (phones r)"
    and "length (strip_non_digits D new) \<noteq> 10"
  shows "edit_phone D r old new = (Inl PhoneInvalid, r)"
proof -
  obtain i where "find_phone D r old = Some i"
    using first_index_Some [of "strip_non_digits D old" "phones r" "\<lambda>v. v = strip_non_digits D old"]
      assms(1)
    by (auto simp: find_phone_def)
  moreover have "Phone D new = Inl PhoneInvalid"
    using assms(2) by (simp add: Phone_def is_valid_phone_def)
  ultimately show ?thesis by (simp add: edit_phone_def)
qed

theorem edit_phone_invalid_new_unchanged_witness:
  "edit_phone some_digits
     \<lparr>name = asc ''Ann'', phones = [asc ''0501234567'', asc ''0670000000''], birthday = None\<rparr>
     (asc ''067-000-00-00'') (asc ''12345'')
   = (Inl PhoneInvalid,
      \<lparr>name = asc ''Ann'', phones = [asc ''0501234567'', asc ''0670000000''], birthday = None\<rparr>)"
  by (rule edit_phone_invalid_new_unchanged)
    (simp_all add: strip_non_digits_def is_digit_def some_digits_def asc_def)

text \<open>
  Claim C9. The lookups do not validate the number they are asked for: when the digits
  of \<open>raw\<close> equal no stored phone, \<^verbatim>\<open>find_phone(raw)\<close> returns \<^verbatim>\<open>None\<close>, and
  \<^verbatim>\<open>remove_phone(raw)\<close> and \<^verbatim>\<open>edit_phone(raw, new)\<close> raise the error of a phone not
  found, whatever the number of digits of \<open>raw\<close> (and of \<open>new\<close>); the record is unchanged.
\<close>

theorem lookup_does_not_validate:
  assumes "strip_non_digits D raw \<notin> set (phones r)"
  shows "find_phone D r raw = None
       \<and> remove_phone D r raw = (Inl PhoneNotFound, r)
       \<and> edit_phone D r raw new = (Inl PhoneNotFound, r)"
proof -
  have "find_phone D r raw = None"
    using assms by (auto simp: find_phone_def first_index_None)
  then show ?thesis by (simp add: remove_phone_def edit_phone_def)
qed

theorem lookup_does_not_validate_witness:
  "find_phone some_digits
       \<lparr>name = asc ''Ann'', phones = [asc ''0501234567''], birthday = None\<rparr> (asc ''123'') = None
   \<and> remove_phone some_digits
       \<lparr>name = asc ''Ann'', phones = [asc ''0501234567''], birthday = None\<rparr> (asc ''123'')
       = (Inl PhoneNotFound,
          \<lparr>name = asc ''Ann'', phones = [asc ''0501234567''], birthday = None\<rparr>)
   \<and> edit_phone some_digits
       \<lparr>name = asc ''Ann'', phones = [asc ''0501234567''], birthday = None\<rparr> (asc ''123'')
       (asc ''45'')
       = (Inl PhoneNotFound,
          \<lparr>name = asc ''Ann'', phones = [asc ''0501234567''], birthday = None\<rparr>)"
  by (rule lookup_does_not_validate)
    (simp add: strip_non_digits_def is_digit_def some_digits_def asc_def)

text \<open>
  Claim C7. After \<^verbatim>\<open>add_record(record)\<close>, \<^verbatim>\<open>find\<close> with the record's name returns
  that record: the same name, phones in the same order, and birthday.
\<close>

theorem add_record_then_find: "find_record (add_record book r) (name r) = Some r"
  by (simp add: find_record_def add_record_def dict_get_dict_set)

theorem add_record_then_find_witness:
  "find_record
     (add_record [(asc ''Ann'', \<lparr>name = asc ''Ann'', phones = [], birthday = None\<rparr>)]
        \<lparr>name = asc ''Ann'', phones = [asc ''0501234567''], birthday = None\<rparr>) (asc ''Ann'')
   = Some \<lparr>name = asc ''Ann'', phones = [asc ''0501234567''], birthday = None\<rparr>"
  using add_record_then_find
    [of "[(asc ''Ann'', \<lparr>name = asc ''Ann'', phones = [], birthday = None\<rparr>)]"
        "\<lparr>name = asc ''Ann'', phones = [asc ''0501234567''], birthday = None\<rparr>"]
  by simp

text \<open>
  Claim C10. \<^verbatim>\<open>get_upcoming_birthdays\<close> only reads: after the call, whether it returned
  a list or raised, the book holds the records it held before, each with the same name,
  phones and birthday.
\<close>

theorem get_upcoming_birthdays_read_only: "snd (get_upcoming_birthdays today book) = book"
  by (simp add: get_upcoming_birthdays_def upcoming_loop_book)

theorem get_upcoming_birthdays_read_only_witness:
  "snd (get_upcoming_birthdays \<lparr>year = 2025, month = 3, day = 10\<rparr>
     [(asc ''Bob'', \<lparr>name = asc ''Bob'', phones = [],
                birthday = Some \<lparr>year = 1990, month = 3, day = 15\<rparr>\<rparr>)])
   = [(asc ''Bob'', \<lparr>name = asc ''Bob'', phones = [],
                birthday = Some \<lparr>year = 1990, month = 3, day = 15\<rparr>\<rparr>)]"
  by (rule get_upcoming_birthdays_read_only)

subsection \<open>Upcoming birthdays\<close>

text \<open>
  Claim C1, as amended. Let \<open>today\<close> be a date and let every birthday of the book be a
  date, and let today's year be before 9999, or no birthday's candidate in today's year be
  strictly before today. Then \<^verbatim>\<open>get_upcoming_birthdays\<close> returns, and the contacts of
  its entries are, in the book's order, exactly the records with a birthday whose next
  occurrence (the birthday's month and day in today's year, day 28 for 29 February when
  that year is not a leap year, redone for the year after when strictly before today) is
  between 0 and 7 days after today. In particular the birthday 29.02.2000 seen on
  25.02.2025 has the candidate 28.02.2025, three days ahead, and is included.
\<close>

theorem upcoming_birthdays_inclusion:
  assumes "valid_date today"
    and "\<forall>r \<in> set (dict_values book). \<forall>bd. birthday r = Some bd \<longrightarrow> valid_date bd"
    and "year today < MAXYEAR \<or>
         (\<forall>r \<in> set (dict_values book). \<forall>bd. birthday r = Some bd \<longrightarrow>
            \<not> toordinal (spec_candidate_in (year today) bd) < toordinal today)"
  shows "(\<exists>out. get_upcoming_birthdays today book = (Inr out, book) \<and>
            map entry_name out = map name (filter (spec_included today) (dict_values book)))
       \<and> spec_candidate \<lparr>year = 2025, month = 2, day = 25\<rparr> \<lparr>year = 2000, month = 2, day = 29\<rparr>
           = \<lparr>year = 2025, month = 2, day = 28\<rparr>
       \<and> spec_days_until \<lparr>year = 2025, month = 2, day = 25\<rparr> \<lparr>year = 2000, month = 2, day = 29\<rparr>
           = 3
       \<and> upcoming_entry \<lparr>year = 2025, month = 2, day = 25\<rparr>
            \<lparr>name = asc ''Dee'', phones = [], birthday = Some \<lparr>year = 2000, month = 2, day = 29\<rparr>\<rparr>
           = Inr (Some \<lparr>entry_name = asc ''Dee'', congratulation_date = asc ''28.02.2025''\<rparr>)"
proof -
  have "\<forall>r \<in> set (dict_values book). \<forall>bd. birthday r = Some bd \<longrightarrow>
          (year today < MAXYEAR
           \<or> \<not> toordinal (spec_candidate_in (year today) bd) < toordinal today)"
    using assms(3) by blast
  from get_upcoming_birthdays_result [OF assms(1,2) this]
  obtain out where out: "get_upcoming_birthdays today book = (Inr out, book)"
    and all2: "list_all2 (\<lambda>r e. entry_name e = name r \<and>
               (\<exists>bd cd. birthday r = Some bd \<and> valid_date cd
                  \<and> toordinal cd = toordinal (spec_candidate today bd)
                                    + spec_shift (spec_candidate today bd)
                  \<and> congratulation_date e = strftime_dmY cd))
             (filter (spec_included today) (dict_values book)) out"
    by blast
  have "map entry_name out = map name (filter (spec_included today) (dict_values book))"
    using all2 by (rule list_all2_names)
  with out
  have "\<exists>out. get_upcoming_birthdays today book = (Inr out, book) \<and>
          map entry_name out = map name (filter (spec_included today) (dict_values book))"
    by blast
  moreover have
    "spec_candidate \<lparr>year = 2025, month = 2, day = 25\<rparr> \<lparr>year = 2000, month = 2, day = 29\<rparr>
       = \<lparr>year = 2025, month = 2, day = 28\<rparr>"
    by (simp add: date_eval spec_eval)
  moreover have
    "spec_days_until \<lparr>year = 2025, month = 2, day = 25\<rparr> \<lparr>year = 2000, month = 2, day = 29\<rparr> = 3"
    by (simp add: date_eval spec_eval)
  moreover have
    "upcoming_entry \<lparr>year = 2025, month = 2, day = 25\<rparr>
       \<lparr>name = asc ''Dee'', phones = [], birthday = Some \<lparr>year = 2000, month = 2, day = 29\<rparr>\<rparr>
     = Inr (Some \<lparr>entry_name = asc ''Dee'', congratulation_date = asc ''28.02.2025''\<rparr>)"
    by (simp add: upcoming_eval date_eval format_eval)
  ultimately show ?thesis by (intro conjI)
qed

theorem upcoming_birthdays_inclusion_witness:
  "\<exists>out. get_upcoming_birthdays \<lparr>year = 2025, month = 3, day = 10\<rparr>
     [(asc ''Ann'', \<lparr>name = asc ''Ann'', phones = [],
                birthday = Some \<lparr>year = 2025, month = 3, day = 12\<rparr>\<rparr>),
      (asc ''Cid'', \<lparr>name = asc ''Cid'', phones = [],
                birthday = Some \<lparr>year = 2000, month = 1, day = 1\<rparr>\<rparr>),
      (asc ''Dan'', \<lparr>name = asc ''Dan'', phones = [], birthday = None\<rparr>)]
   = (Inr out,
     [(asc ''Ann'', \<lparr>name = asc ''Ann'', phones = [],
                birthday = Some \<lparr>year = 2025, month = 3, day = 12\<rparr>\<rparr>),
      (asc ''Cid'', \<lparr>name = asc ''Cid'', phones = [],
                birthday = Some \<lparr>year = 2000, month = 1, day = 1\<rparr>\<rparr>),
      (asc ''Dan'', \<lparr>name = asc ''Dan'', phones = [], birthday = None\<rparr>)])
   \<and> map entry_name out = [asc ''Ann'']"
proof -
  let ?today = "\<lparr>year = 2025, month = 3, day = 10\<rparr>"
  let ?book = "[(asc ''Ann'', \<lparr>name = asc ''Ann'', phones = [],
                birthday = Some \<lparr>year = 2025, month = 3, day = 12\<rparr>\<rparr>),
      (asc ''Cid'', \<lparr>name = asc ''Cid'', phones = [],
                birthday = Some \<lparr>year = 2000, month = 1, day = 1\<rparr>\<rparr>),
      (asc ''Dan'', \<lparr>name = asc ''Dan'', phones = [], birthday = None\<rparr>)]"
  have v: "valid_date ?today" by (simp add: date_eval)
  have b: "\<forall>r \<in> set (dict_values ?book). \<forall>bd. birthday r = Some bd \<longrightarrow> valid_date bd"
    by (simp add: dict_values_def date_eval)
  have y: "year ?today < MAXYEAR \<or>
         (\<forall>r \<in> set (dict_values ?book). \<forall>bd. birthday r = Some bd \<longrightarrow>
            \<not> toordinal (spec_candidate_in (year ?today) bd) < toordinal ?today)"
    by (simp add: MAXYEAR_def)
  have f: "map name (filter (spec_included ?today) (dict_values ?book)) = [asc ''Ann'']"
    by (simp add: dict_values_def date_eval spec_eval)
  from upcoming_birthdays_inclusion [OF v b y]
  have "\<exists>out. get_upcoming_birthdays ?today ?book = (Inr out, ?book) \<and>
          map entry_name out = map name (filter (spec_included ?today) (dict_values ?book))"
    by (rule conjunct1)
  then show ?thesis unfolding f .
qed

text \<open>
  The claim as stated fails on the last day of year 9999: a birthday on 1 January is one
  day ahead and should be included, but no date exists in year 10000 and the call
  raises \<^verbatim>\<open>ValueError\<close>.
\<close>

theorem upcoming_birthdays_inclusion_counterexample:
  "spec_days_until \<lparr>year = 9999, month = 12, day = 31\<rparr> \<lparr>year = 2000, month = 1, day = 1\<rparr> = 1
   \<and> spec_included \<lparr>year = 9999, month = 12, day = 31\<rparr>
       \<lparr>name = asc ''Eve'', phones = [], birthday = Some \<lparr>year = 2000, month = 1, day = 1\<rparr>\<rparr>
   \<and> get_upcoming_birthdays \<lparr>year = 9999, month = 12, day = 31\<rparr>
       [(asc ''Eve'', \<lparr>name = asc ''Eve'', phones = [],
                  birthday = Some \<lparr>year = 2000, month = 1, day = 1\<rparr>\<rparr>)]
     = (Inl DateValueError,
       [(asc ''Eve'', \<lparr>name = asc ''Eve'', phones = [],
                  birthday = Some \<lparr>year = 2000, month = 1, day = 1\<rparr>\<rparr>)])"
  by (simp add: upcoming_eval date_eval spec_eval)




subsection \<open>Rendering a record\<close>




subsection \<open>Birthdays\<close>

text \<open>
  Claim C4, as amended. For every string \<open>raw\<close>, \<^verbatim>\<open>Birthday(raw)\<close> succeeds, with the date
  \<open>b\<close>, exactly when \<open>b\<close> is a valid calendar date and \<open>raw\<close> is a text read as its day,
  a dot, a text read as its month, a dot, and a text read as its year: the year on four
  decimal digits of any script; the month as 10 to 12, as 0 and a digit 1 to 9, or as a
  single digit 1 to 9; the day as 30 or 31, as 1 or 2 and a decimal digit of any script,
  as 0 and a digit 1 to 9, or as a single digit 1 to 9, also after a blank. In every
  other case, as for the day 31 of a month of 30 days or for 30 February, it fails with
  the error of an invalid date format.
\<close>

theorem Birthday_accepts:
  assumes "unicode_like D"
  shows "(Birthday D raw = Inr b \<longleftrightarrow>
      valid_date b \<and>
      (\<exists>dt mt yt. raw = dt @ asc ''.'' @ mt @ asc ''.'' @ yt \<and>
         day_reads D dt (day b) \<and> month_reads mt (month b) \<and> year_reads D yt (year b)))
   \<and> ((\<forall>d. Birthday D raw \<noteq> Inr d) \<longrightarrow> Birthday D raw = Inl InvalidDateFormat)
   \<and> Birthday D (asc ''31.04.2020'') = Inl InvalidDateFormat
   \<and> Birthday D (asc ''30.02.2020'') = Inl InvalidDateFormat"
proof (intro conjI)
  note dv = unicode_like_values [OF assms]
  show "Birthday D raw = Inr b \<longleftrightarrow>
      valid_date b \<and>
      (\<exists>dt mt yt. raw = dt @ asc ''.'' @ mt @ asc ''.'' @ yt \<and>
         day_reads D dt (day b) \<and> month_reads mt (month b) \<and> year_reads D yt (year b))"
    by (rule Birthday_iff [OF assms])
  show "(\<forall>d. Birthday D raw \<noteq> Inr d) \<longrightarrow> Birthday D raw = Inl InvalidDateFormat"
    using Birthday_error [of D raw] by (cases "Birthday D raw") auto
  show "Birthday D (asc ''31.04.2020'') = Inl InvalidDateFormat"
    by (simp add: parse_table_eval dv date_eval)
  show "Birthday D (asc ''30.02.2020'') = Inl InvalidDateFormat"
    by (simp add: parse_table_eval dv date_eval)
qed

theorem Birthday_accepts_witness:
  "Birthday some_digits (asc '' 5.3.1999'') = Inr \<lparr>year = 1999, month = 3, day = 5\<rparr>
   \<and> Birthday some_digits (asc ''10.10.'' @ [1634, 1632, 1634, 1632])
       = Inr \<lparr>year = 2020, month = 10, day = 10\<rparr>"
proof -
  let ?b = "\<lparr>year = 1999, month = 3, day = 5\<rparr>" and ?c = "\<lparr>year = 2020, month = 10, day = 10\<rparr>"
  have v: "valid_date ?b" "valid_date ?c" by (simp_all add: date_eval)
  have b: "day_reads some_digits (asc '' 5'') (day ?b)" "month_reads (asc ''3'') (month ?b)"
    "year_reads some_digits (asc ''1999'') (year ?b)"
    by (simp_all add: day_reads_def month_reads_def year_reads_def in_range_def ascii_val_def
        decimal_def is_digit_def digit_val_def some_digits_def asc_def)
  have c: "day_reads some_digits (asc ''10'') (day ?c)" "month_reads (asc ''10'') (month ?c)"
    "year_reads some_digits [1634, 1632, 1634, 1632] (year ?c)"
    by (simp_all add: day_reads_def month_reads_def year_reads_def in_range_def ascii_val_def
        decimal_def is_digit_def digit_val_def some_digits_def asc_def)
  have "\<exists>dt mt yt. asc '' 5.3.1999'' = dt @ asc ''.'' @ mt @ asc ''.'' @ yt \<and>
         day_reads some_digits dt (day ?b) \<and> month_reads mt (month ?b)
         \<and> year_reads some_digits yt (year ?b)"
    using b by (intro exI [of _ "asc '' 5''"] exI [of _ "asc ''3''"] exI [of _ "asc ''1999''"])
      (simp add: asc_def)
  moreover have "\<exists>dt mt yt. asc ''10.10.'' @ [1634, 1632, 1634, 1632]
           = dt @ asc ''.'' @ mt @ asc ''.'' @ yt \<and>
         day_reads some_digits dt (day ?c) \<and> month_reads mt (month ?c)
         \<and> year_reads some_digits yt (year ?c)"
    using c
    by (intro exI [of _ "asc ''10''"] exI [of _ "asc ''10''"] exI [of _ "[1634, 1632, 1634, 1632]"])
      (simp add: asc_def)
  ultimately show ?thesis
    using v Birthday_accepts [OF some_digits_unicode_like, of "asc '' 5.3.1999''" ?b]
      Birthday_accepts [OF some_digits_unicode_like, of "asc ''10.10.'' @ [1634, 1632, 1634, 1632]" ?c]
    by blast
qed

text \<open>
  The claim as stated fails: \<^verbatim>\<open>1.1.2020\<close> is not of the pattern DD.MM.YYYY, and
  \<^verbatim>\<open>Birthday\<close> accepts it.
\<close>

theorem Birthday_accepts_counterexample:
  "\<not> dd_mm_yyyy (asc ''1.1.2020'')
   \<and> Birthday some_digits (asc ''1.1.2020'') = Inr \<lparr>year = 2020, month = 1, day = 1\<rparr>"
  by (simp add: dd_mm_yyyy_def parse_eval date_eval)




end
